theory Spec2Isabelle
  imports Main "HOL-Library.Sublist"
begin

section \<open>Data model (types/index.ts)\<close>

text \<open>
  The contact table and the in-memory \<open>Contact\<close> objects share one record type. Timestamps
  (\<open>createdAt\<close>, \<open>updatedAt\<close>, \<open>deletedAt\<close>) are seconds on the database clock, the
  resolution of SQLite's \<open>datetime('now')\<close>; an absent optional field is \<open>None\<close>, SQL
  \<open>NULL\<close> in a row. The field \<open>id\<close> of the source is \<open>id'\<close> here.
\<close>

datatype LinkPrecedence = PRIMARY | SECONDARY

record Contact =
  id' :: nat
  phoneNumber :: "string option"
  email :: "string option"
  linkedId :: "nat option"
  linkPrecedence :: LinkPrecedence
  createdAt :: nat
  updatedAt :: nat
  deletedAt :: "nat option"

record CreateContactData =
  d_phoneNumber :: "string option"
  d_email :: "string option"
  d_linkedId :: "nat option"
  d_linkPrecedence :: LinkPrecedence

record IdentifyRequest =
  r_email :: "string option"
  r_phoneNumber :: "string option"

record IdentifyResponse =
  primaryContactId :: nat
  emails :: "string list"
  phoneNumbers :: "string list"
  secondaryContactIds :: "nat list"

text \<open>
  The errors a request can end in: the storage layer rejecting a statement, the two
  \<open>throw new Error(...)\<close> of the service, and the \<open>reject\<close> of \<open>createContact\<close> when the
  inserted row cannot be read back.
\<close>

datatype error =
    StorageError
  | PrimaryContactNotFound
  | NoPrimaryContactToMerge
  | FailedToRetrieveCreatedContact

text \<open>JavaScript truthiness of an optional string and of an optional number.\<close>

fun truthy :: "string option \<Rightarrow> bool" where
  "truthy None = False"
| "truthy (Some s) = (s \<noteq> [])"

fun truthy_num :: "nat option \<Rightarrow> bool" where
  "truthy_num None = False"
| "truthy_num (Some n) = (n \<noteq> 0)"

section \<open>The storage layer (class Database)\<close>

text \<open>
  The table \<open>contacts\<close> is the list of its rows in rowid order, together with the counter
  that \<open>AUTOINCREMENT\<close> keeps of the largest id ever handed out. \<open>ORDER BY createdAt ASC\<close>
  is a stable sort of the rows scanned in table order: SQL leaves the order of rows with
  equal \<open>createdAt\<close> open, and the model takes the table order for them. The clock reading
  \<open>datetime('now')\<close> is the parameter \<open>now\<close>: all statements of one request read the same
  second. A statement fails only when SQLite cannot parse it; loss of the connection and
  the like are not modelled.
\<close>

record Database =
  rows :: "Contact list"
  sqlite_sequence :: nat

definition emptyDatabase :: Database where
  "emptyDatabase = \<lparr>rows = [], sqlite_sequence = 0\<rparr>"

definition rowToContact :: "Contact \<Rightarrow> Contact" where
  "rowToContact row =
     \<lparr>id' = id' row,
      phoneNumber = (if truthy (phoneNumber row) then phoneNumber row else None),
      email = (if truthy (email row) then email row else None),
      linkedId = (if truthy_num (linkedId row) then linkedId row else None),
      linkPrecedence = linkPrecedence row,
      createdAt = createdAt row,
      updatedAt = updatedAt row,
      deletedAt = deletedAt row\<rparr>"

text \<open>The id \<open>AUTOINCREMENT\<close> assigns: one more than the largest id in use or ever used.\<close>

definition nextId :: "Database \<Rightarrow> nat" where
  "nextId db = Suc (foldr max (map id' (rows db)) (sqlite_sequence db))"

definition insertedRow :: "CreateContactData \<Rightarrow> nat \<Rightarrow> Database \<Rightarrow> Contact" where
  "insertedRow contactData now db =
     \<lparr>id' = nextId db,
      phoneNumber = d_phoneNumber contactData,
      email = d_email contactData,
      linkedId = d_linkedId contactData,
      linkPrecedence = d_linkPrecedence contactData,
      createdAt = now,
      updatedAt = now,
      deletedAt = None\<rparr>"

text \<open>\<open>createContact\<close> inserts the row and reads it back by its id.\<close>

definition createContact ::
  "CreateContactData \<Rightarrow> nat \<Rightarrow> Database \<Rightarrow> (error + Contact) \<times> Database" where
  "createContact contactData now db =
     (let insertId = nextId db;
          db' = db\<lparr>rows := rows db @ [insertedRow contactData now db],
                   sqlite_sequence := insertId\<rparr>
      in case find (\<lambda>r. id' r = insertId \<and> deletedAt r = None) (rows db') of
           Some r \<Rightarrow> (Inr (rowToContact r), db')
         | None \<Rightarrow> (Inl FailedToRetrieveCreatedContact, db'))"

text \<open>
  \<open>findContactsByEmailOrPhone\<close> concatenates one condition per truthy argument between
  \<open>AND (\<close> and \<open>)\<close>. With no condition the statement is \<open>... AND () ORDER BY ...\<close>, which
  SQLite refuses to parse: the promise rejects.
\<close>

definition whereConditions :: "string option \<Rightarrow> string option \<Rightarrow> (Contact \<Rightarrow> bool) list" where
  "whereConditions email_arg phone_arg =
     (if truthy email_arg then [\<lambda>r. email r = email_arg] else []) @
     (if truthy phone_arg then [\<lambda>r. phoneNumber r = phone_arg] else [])"

definition findContactsByEmailOrPhone ::
  "string option \<Rightarrow> string option \<Rightarrow> Database \<Rightarrow> error + Contact list" where
  "findContactsByEmailOrPhone email_arg phone_arg db =
     (case whereConditions email_arg phone_arg of
        [] \<Rightarrow> Inl StorageError
      | c # cs \<Rightarrow>
          Inr (map rowToContact
                 (sort_key createdAt
                    (filter (\<lambda>r. deletedAt r = None \<and> list_ex (\<lambda>cond. cond r) (c # cs))
                       (rows db)))))"

definition updateContactToSecondary :: "nat \<Rightarrow> nat \<Rightarrow> nat \<Rightarrow> Database \<Rightarrow> Database" where
  "updateContactToSecondary contactId primaryContactId_arg now db =
     db\<lparr>rows :=
          map (\<lambda>r. if id' r = contactId
                    then r\<lparr>linkedId := Some primaryContactId_arg,
                           linkPrecedence := SECONDARY,
                           updatedAt := now\<rparr>
                    else r)
              (rows db)\<rparr>"

definition findAllLinkedContacts :: "nat \<Rightarrow> Database \<Rightarrow> Contact list" where
  "findAllLinkedContacts primaryContactId_arg db =
     map rowToContact
       (sort_key createdAt
          (filter (\<lambda>r. (id' r = primaryContactId_arg \<or> linkedId r = Some primaryContactId_arg)
                         \<and> deletedAt r = None)
             (rows db)))"

definition updateLinkedContactsPrimaryId :: "nat \<Rightarrow> nat \<Rightarrow> nat \<Rightarrow> Database \<Rightarrow> Database" where
  "updateLinkedContactsPrimaryId oldPrimaryId newPrimaryId now db =
     db\<lparr>rows :=
          map (\<lambda>r. if linkedId r = Some oldPrimaryId
                    then r\<lparr>linkedId := Some newPrimaryId, updatedAt := now\<rparr>
                    else r)
              (rows db)\<rparr>"

section \<open>The reconciliation service (class IdentityReconciliationService)\<close>

definition createNewPrimaryContact ::
  "string option \<Rightarrow> string option \<Rightarrow> nat \<Rightarrow> Database \<Rightarrow> (error + IdentifyResponse) \<times> Database" where
  "createNewPrimaryContact email_arg phone_arg now db =
     (let contactData =
            \<lparr>d_phoneNumber = (if truthy phone_arg then phone_arg else None),
             d_email = (if truthy email_arg then email_arg else None),
             d_linkedId = None,
             d_linkPrecedence = PRIMARY\<rparr>
      in case createContact contactData now db of
           (Inl e, db') \<Rightarrow> (Inl e, db')
         | (Inr newContact, db') \<Rightarrow>
             (Inr \<lparr>primaryContactId = id' newContact,
                   emails = (if truthy email_arg then [the email_arg] else []),
                   phoneNumbers = (if truthy phone_arg then [the phone_arg] else []),
                   secondaryContactIds = []\<rparr>,
              db'))"

text \<open>
  The loop of \<open>findPrimaryContacts\<close>: \<open>contacts\<close> is the whole matched list, which
  \<open>contacts.find\<close> searches; the second argument is what is left to visit.
\<close>

fun findPrimaryContacts_loop ::
  "Contact list \<Rightarrow> Contact list \<Rightarrow> Contact list \<Rightarrow> nat set \<Rightarrow> Contact list" where
  "findPrimaryContacts_loop contacts [] primaryContacts primaryIds = primaryContacts"
| "findPrimaryContacts_loop contacts (contact # todo) primaryContacts primaryIds =
     (if linkPrecedence contact = PRIMARY
      then findPrimaryContacts_loop contacts todo
             (primaryContacts @ [contact]) (insert (id' contact) primaryIds)
      else (case linkedId contact of
              None \<Rightarrow> findPrimaryContacts_loop contacts todo primaryContacts primaryIds
            | Some l \<Rightarrow>
                if l \<noteq> 0 \<and> l \<notin> primaryIds
                then (case find (\<lambda>c. id' c = l) contacts of
                        Some primary \<Rightarrow>
                          findPrimaryContacts_loop contacts todo
                            (primaryContacts @ [primary]) (insert (id' primary) primaryIds)
                      | None \<Rightarrow> findPrimaryContacts_loop contacts todo primaryContacts primaryIds)
                else findPrimaryContacts_loop contacts todo primaryContacts primaryIds))"

definition findPrimaryContacts :: "Contact list \<Rightarrow> Contact list" where
  "findPrimaryContacts contacts = findPrimaryContacts_loop contacts contacts [] {}"

definition needsSecondaryContact :: "Contact \<Rightarrow> string option \<Rightarrow> string option \<Rightarrow> bool" where
  "needsSecondaryContact primaryContact email_arg phone_arg =
     (let hasEmail = (\<not> truthy email_arg \<or> email primaryContact = email_arg);
          hasPhone = (\<not> truthy phone_arg \<or> phoneNumber primaryContact = phone_arg)
      in if hasEmail \<and> hasPhone then False
         else (let hasNewEmail = (truthy email_arg \<and> email primaryContact \<noteq> email_arg);
                   hasNewPhone = (truthy phone_arg \<and> phoneNumber primaryContact \<noteq> phone_arg)
               in hasNewEmail \<or> hasNewPhone))"

definition createSecondaryContact ::
  "string option \<Rightarrow> string option \<Rightarrow> nat \<Rightarrow> nat \<Rightarrow> Database \<Rightarrow> (error + Contact) \<times> Database" where
  "createSecondaryContact email_arg phone_arg primaryContactId_arg now db =
     createContact
       \<lparr>d_phoneNumber = (if truthy phone_arg then phone_arg else None),
        d_email = (if truthy email_arg then email_arg else None),
        d_linkedId = (if primaryContactId_arg \<noteq> 0 then Some primaryContactId_arg else None),
        d_linkPrecedence = SECONDARY\<rparr>
       now db"

definition hasNewInformation :: "Contact list \<Rightarrow> string option \<Rightarrow> string option \<Rightarrow> bool" where
  "hasNewInformation contacts email_arg phone_arg =
     (if \<not> truthy email_arg \<and> \<not> truthy phone_arg then False
      else (let existingEmails = set (filter truthy (map email contacts));
                existingPhones = set (filter truthy (map phoneNumber contacts));
                hasNewEmail = (truthy email_arg \<and> email_arg \<notin> existingEmails);
                hasNewPhone = (truthy phone_arg \<and> phone_arg \<notin> existingPhones)
            in hasNewEmail \<or> hasNewPhone))"

text \<open>One round of the loops that collect \<open>emails\<close> and \<open>phoneNumbers\<close>.\<close>

definition pushNew :: "string option \<Rightarrow> string list \<Rightarrow> string list" where
  "pushNew v acc =
     (case v of None \<Rightarrow> acc
      | Some s \<Rightarrow> if s \<noteq> [] \<and> s \<notin> set acc then acc @ [s] else acc)"

definition buildResponseForPrimary :: "nat \<Rightarrow> Database \<Rightarrow> error + IdentifyResponse" where
  "buildResponseForPrimary primaryContactId_arg db =
     (let allLinkedContacts = findAllLinkedContacts primaryContactId_arg db;
          secondaryContacts = filter (\<lambda>c. linkPrecedence c = SECONDARY) allLinkedContacts
      in case find (\<lambda>c. linkPrecedence c = PRIMARY) allLinkedContacts of
           None \<Rightarrow> Inl PrimaryContactNotFound
         | Some primaryContact \<Rightarrow>
             Inr \<lparr>primaryContactId = id' primaryContact,
                  emails = fold (\<lambda>c. pushNew (email c)) secondaryContacts
                             (pushNew (email primaryContact) []),
                  phoneNumbers = fold (\<lambda>c. pushNew (phoneNumber c)) secondaryContacts
                                   (pushNew (phoneNumber primaryContact) []),
                  secondaryContactIds = map id' secondaryContacts\<rparr>)"

text \<open>
  The loop of \<open>mergePrimaryContacts\<close> over \<open>contactsToMerge\<close>: each former primary is made
  a secondary of the oldest one, then the contacts linked to it are repointed.
\<close>

definition mergeInto :: "nat \<Rightarrow> nat \<Rightarrow> Contact \<Rightarrow> Database \<Rightarrow> Database" where
  "mergeInto oldestId now contact db =
     updateLinkedContactsPrimaryId (id' contact) oldestId now
       (updateContactToSecondary (id' contact) oldestId now db)"

definition mergePrimaryContacts ::
  "Contact list \<Rightarrow> string option \<Rightarrow> string option \<Rightarrow> nat \<Rightarrow> Database
     \<Rightarrow> (error + IdentifyResponse) \<times> Database" where
  "mergePrimaryContacts primaryContacts email_arg phone_arg now db =
     (case sort_key createdAt primaryContacts of
        [] \<Rightarrow> (Inl NoPrimaryContactToMerge, db)
      | oldestPrimary # contactsToMerge \<Rightarrow>
          (let db1 = fold (mergeInto (id' oldestPrimary) now) contactsToMerge db;
               allLinkedContacts = findAllLinkedContacts (id' oldestPrimary) db1
           in if hasNewInformation allLinkedContacts email_arg phone_arg
              then (case createSecondaryContact email_arg phone_arg (id' oldestPrimary) now db1 of
                      (Inl e, db2) \<Rightarrow> (Inl e, db2)
                    | (Inr created, db2) \<Rightarrow> (buildResponseForPrimary (id' oldestPrimary) db2, db2))
              else (buildResponseForPrimary (id' oldestPrimary) db1, db1)))"

text \<open>
  \<open>identify\<close> returns the response or the error of the request, and the table as the
  request leaves it (there is no transaction: what was written before an error stays).
  The test \<open>if (!primaryContact)\<close> that follows \<open>primaryContacts.length === 1\<close> in the source
  cannot fire, the one element being a contact object; it has no branch here.
\<close>

definition identify ::
  "IdentifyRequest \<Rightarrow> nat \<Rightarrow> Database \<Rightarrow> (error + IdentifyResponse) \<times> Database" where
  "identify request now db =
     (let email_arg = r_email request; phone_arg = r_phoneNumber request
      in case findContactsByEmailOrPhone email_arg phone_arg db of
           Inl e \<Rightarrow> (Inl e, db)
         | Inr existingContacts \<Rightarrow>
             (case existingContacts of
                [] \<Rightarrow> createNewPrimaryContact email_arg phone_arg now db
              | _ # _ \<Rightarrow>
                  (case findPrimaryContacts existingContacts of
                     [primaryContact] \<Rightarrow>
                       (if needsSecondaryContact primaryContact email_arg phone_arg
                        then (case createSecondaryContact email_arg phone_arg
                                     (id' primaryContact) now db of
                                (Inl e, db') \<Rightarrow> (Inl e, db')
                              | (Inr created, db') \<Rightarrow>
                                  (buildResponseForPrimary (id' primaryContact) db', db'))
                        else (buildResponseForPrimary (id' primaryContact) db, db))
                   | primaryContacts \<Rightarrow>
                       mergePrimaryContacts primaryContacts email_arg phone_arg now db)))"

section \<open>Auxiliary notions for the proofs\<close>

definition keptFields :: "Contact \<Rightarrow> nat \<times> string option \<times> string option \<times> nat \<times> nat option" where
  "keptFields r = (id' r, email r, phoneNumber r, createdAt r, deletedAt r)"

definition matches :: "string option \<Rightarrow> string option \<Rightarrow> Contact \<Rightarrow> bool" where
  "matches e p r \<longleftrightarrow>
     deletedAt r = None \<and> ((truthy e \<and> email r = e) \<or> (truthy p \<and> phoneNumber r = p))"

text \<open>The rows the service inserts, and the table after an insert.\<close>

definition primaryRow :: "string option \<Rightarrow> string option \<Rightarrow> nat \<Rightarrow> Database \<Rightarrow> Contact" where
  "primaryRow e p now db =
     \<lparr>id' = nextId db,
      phoneNumber = (if truthy p then p else None),
      email = (if truthy e then e else None),
      linkedId = None,
      linkPrecedence = PRIMARY,
      createdAt = now, updatedAt = now, deletedAt = None\<rparr>"

definition secondaryRow ::
  "string option \<Rightarrow> string option \<Rightarrow> nat \<Rightarrow> nat \<Rightarrow> Database \<Rightarrow> Contact" where
  "secondaryRow e p pid now db =
     \<lparr>id' = nextId db,
      phoneNumber = (if truthy p then p else None),
      email = (if truthy e then e else None),
      linkedId = (if pid \<noteq> 0 then Some pid else None),
      linkPrecedence = SECONDARY,
      createdAt = now, updatedAt = now, deletedAt = None\<rparr>"

definition appendRow :: "Contact \<Rightarrow> Database \<Rightarrow> Database" where
  "appendRow row db = db\<lparr>rows := rows db @ [row], sqlite_sequence := nextId db\<rparr>"

text \<open>
  The link invariant of the table: ids are distinct and not 0, no row is soft-deleted, a
  primary has no \<open>linkedId\<close>, and the \<open>linkedId\<close> of a secondary is the id of a primary row.
\<close>

definition storeInvariant :: "Database \<Rightarrow> bool" where
  "storeInvariant db \<longleftrightarrow>
     distinct (map id' (rows db)) \<and>
     (\<forall>r\<in>set (rows db).
        id' r \<noteq> 0 \<and> deletedAt r = None \<and>
        (linkPrecedence r = PRIMARY \<longrightarrow> linkedId r = None) \<and>
        (linkPrecedence r = SECONDARY \<longrightarrow>
           (\<exists>p\<in>set (rows db). linkedId r = Some (id' p) \<and> linkPrecedence p = PRIMARY)))"

text \<open>
  What the loop of \<open>mergePrimaryContacts\<close> does to one row, given the id of the oldest
  primary and the set \<open>merged\<close> of the ids in \<open>contactsToMerge\<close>.
\<close>

definition mergeRow :: "nat \<Rightarrow> nat \<Rightarrow> nat set \<Rightarrow> Contact \<Rightarrow> Contact" where
  "mergeRow oldestId now merged r =
     (if id' r \<in> merged
      then r\<lparr>linkedId := Some oldestId, linkPrecedence := SECONDARY, updatedAt := now\<rparr>
      else if linkedId r \<in> Some ` merged
      then r\<lparr>linkedId := Some oldestId, updatedAt := now\<rparr>
      else r)"

text \<open>The tables that sequences of successfully completed requests produce.\<close>

inductive completed :: "Database \<Rightarrow> bool" where
  completed_empty: "completed emptyDatabase"
| completed_identify:
    "completed db \<Longrightarrow> identify request now db = (Inr response, db') \<Longrightarrow> completed db'"

text \<open>The non-empty values among a list of optional fields, in their order.\<close>

definition presentValues :: "string option list \<Rightarrow> string list" where
  "presentValues vs = map the (filter truthy vs)"

text \<open>
  The projection property of claim C3, for a response, the primary \<open>P\<close> of the cluster and
  its secondaries \<open>secs\<close> in the order of the cluster query: the primary's own values lead
  the lists, what follows is drawn from the secondaries in their order, no value repeats,
  every value of the cluster is listed, and the secondary ids are those of \<open>secs\<close>.
\<close>

definition projectionOf :: "IdentifyResponse \<Rightarrow> Contact \<Rightarrow> Contact list \<Rightarrow> bool" where
  "projectionOf resp P secs \<longleftrightarrow>
     primaryContactId resp = id' P \<and>
     (truthy (email P) \<longrightarrow> emails resp \<noteq> [] \<and> Some (hd (emails resp)) = email P) \<and>
     (truthy (phoneNumber P) \<longrightarrow>
        phoneNumbers resp \<noteq> [] \<and> Some (hd (phoneNumbers resp)) = phoneNumber P) \<and>
     (\<exists>more. emails resp = presentValues [email P] @ more
             \<and> subseq more (presentValues (map email secs))) \<and>
     (\<exists>more. phoneNumbers resp = presentValues [phoneNumber P] @ more
             \<and> subseq more (presentValues (map phoneNumber secs))) \<and>
     distinct (emails resp) \<and> distinct (phoneNumbers resp) \<and>
     set (emails resp) = set (presentValues (map email (P # secs))) \<and>
     set (phoneNumbers resp) = set (presentValues (map phoneNumber (P # secs))) \<and>
     secondaryContactIds resp = map id' secs"

text \<open>
  Well-formed tables: the link invariant; rows in the order of their ids and of their
  \<open>createdAt\<close>; every link points to a smaller id; no stored value is the empty string and
  every row has an email or a phone number; and every row that shares a value with a
  primary is that primary or linked to it.
\<close>

definition sharesValue :: "Contact \<Rightarrow> Contact \<Rightarrow> bool" where
  "sharesValue c P \<longleftrightarrow>
     (truthy (email c) \<and> email c = email P) \<or>
     (truthy (phoneNumber c) \<and> phoneNumber c = phoneNumber P)"

definition wellFormed :: "Database \<Rightarrow> bool" where
  "wellFormed db \<longleftrightarrow>
     storeInvariant db \<and>
     sorted_wrt (<) (map id' (rows db)) \<and>
     sorted (map createdAt (rows db)) \<and>
     (\<forall>r\<in>set (rows db).
        (\<forall>l. linkedId r = Some l \<longrightarrow> l < id' r) \<and>
        email r \<noteq> Some [] \<and> phoneNumber r \<noteq> Some [] \<and>
        (truthy (email r) \<or> truthy (phoneNumber r))) \<and>
     (\<forall>P\<in>set (rows db). \<forall>c\<in>set (rows db).
        linkPrecedence P = PRIMARY \<and> sharesValue c P \<longrightarrow> c = P \<or> linkedId c = Some (id' P))"

text \<open>
  The tables that sequences of requests produce from the empty table when the clock never
  runs backwards: no reading is earlier than a \<open>createdAt\<close> already stored. Requests that
  end in an error count as well.
\<close>

inductive reachable :: "Database \<Rightarrow> bool" where
  reachable_empty: "reachable emptyDatabase"
| reachable_identify:
    "reachable db \<Longrightarrow> \<forall>r\<in>set (rows db). createdAt r \<le> now \<Longrightarrow>
     identify request now db = (outcome, db') \<Longrightarrow> reachable db'"

section \<open>Sample tables\<close>

text \<open>
  A sample history: contact 1 and contact 2 are created
  as primaries at clock readings 1 and 2, and a request with the email of the first and
  the phone number of the second merges them at clock reading 9.
\<close>

definition sampleOnePrimary :: Database where
  "sampleOnePrimary =
     \<lparr>rows = [\<lparr>id' = 1, phoneNumber = Some ''+1'', email = Some ''a@x.com'', linkedId = None,
               linkPrecedence = PRIMARY, createdAt = 1, updatedAt = 1, deletedAt = None\<rparr>],
      sqlite_sequence = 1\<rparr>"

definition sampleTwoPrimaries :: Database where
  "sampleTwoPrimaries =
     \<lparr>rows = [\<lparr>id' = 1, phoneNumber = Some ''+1'', email = Some ''a@x.com'', linkedId = None,
               linkPrecedence = PRIMARY, createdAt = 1, updatedAt = 1, deletedAt = None\<rparr>,
              \<lparr>id' = 2, phoneNumber = Some ''+2'', email = Some ''b@x.com'', linkedId = None,
               linkPrecedence = PRIMARY, createdAt = 2, updatedAt = 2, deletedAt = None\<rparr>],
      sqlite_sequence = 2\<rparr>"

definition sampleMerged :: Database where
  "sampleMerged =
     \<lparr>rows = [\<lparr>id' = 1, phoneNumber = Some ''+1'', email = Some ''a@x.com'', linkedId = None,
               linkPrecedence = PRIMARY, createdAt = 1, updatedAt = 1, deletedAt = None\<rparr>,
              \<lparr>id' = 2, phoneNumber = Some ''+2'', email = Some ''b@x.com'', linkedId = Some 1,
               linkPrecedence = SECONDARY, createdAt = 2, updatedAt = 9, deletedAt = None\<rparr>],
      sqlite_sequence = 2\<rparr>"

text \<open>
  A second sample history: after contact 1, a request with its email and a new phone
  number attaches contact 2 as a secondary at clock reading 2, and a request with a new
  email and a new phone number creates contact 3 as a primary at clock reading 3.
\<close>

definition sampleAttached :: Database where
  "sampleAttached =
     \<lparr>rows = [\<lparr>id' = 1, phoneNumber = Some ''+1'', email = Some ''a@x.com'', linkedId = None,
               linkPrecedence = PRIMARY, createdAt = 1, updatedAt = 1, deletedAt = None\<rparr>,
              \<lparr>id' = 2, phoneNumber = Some ''+2'', email = Some ''a@x.com'', linkedId = Some 1,
               linkPrecedence = SECONDARY, createdAt = 2, updatedAt = 2, deletedAt = None\<rparr>],
      sqlite_sequence = 2\<rparr>"

definition sampleTwoClusters :: Database where
  "sampleTwoClusters =
     \<lparr>rows = [\<lparr>id' = 1, phoneNumber = Some ''+1'', email = Some ''a@x.com'', linkedId = None,
               linkPrecedence = PRIMARY, createdAt = 1, updatedAt = 1, deletedAt = None\<rparr>,
              \<lparr>id' = 2, phoneNumber = Some ''+2'', email = Some ''a@x.com'', linkedId = Some 1,
               linkPrecedence = SECONDARY, createdAt = 2, updatedAt = 2, deletedAt = None\<rparr>,
              \<lparr>id' = 3, phoneNumber = Some ''+3'', email = Some ''c@x.com'', linkedId = None,
               linkPrecedence = PRIMARY, createdAt = 3, updatedAt = 3, deletedAt = None\<rparr>],
      sqlite_sequence = 3\<rparr>"


section \<open>Basic facts about the storage layer\<close>

lemma rowToContact_simps [simp]:
  "id' (rowToContact r) = id' r"
  "linkPrecedence (rowToContact r) = linkPrecedence r"
  "createdAt (rowToContact r) = createdAt r"
  "updatedAt (rowToContact r) = updatedAt r"
  "linkedId (rowToContact r) = (if truthy_num (linkedId r) then linkedId r else None)"
  "email (rowToContact r) = (if truthy (email r) then email r else None)"
  "phoneNumber (rowToContact r) = (if truthy (phoneNumber r) then phoneNumber r else None)"
  by (simp_all add: rowToContact_def)

lemma foldr_max_ge: "x \<in> set xs \<Longrightarrow> x \<le> foldr max xs (b::nat)"
  by (induction xs) (auto simp: max_def)

lemma id_less_nextId: "r \<in> set (rows db) \<Longrightarrow> id' r < nextId db"
  unfolding nextId_def using foldr_max_ge [of "id' r" "map id' (rows db)" "sqlite_sequence db"]
  by auto

lemma nextId_pos [simp]: "0 < nextId db"
  by (simp add: nextId_def)

lemma insertedRow_simps [simp]:
  "id' (insertedRow cd now db) = nextId db"
  "phoneNumber (insertedRow cd now db) = d_phoneNumber cd"
  "email (insertedRow cd now db) = d_email cd"
  "linkedId (insertedRow cd now db) = d_linkedId cd"
  "linkPrecedence (insertedRow cd now db) = d_linkPrecedence cd"
  "createdAt (insertedRow cd now db) = now"
  "updatedAt (insertedRow cd now db) = now"
  "deletedAt (insertedRow cd now db) = None"
  by (simp_all add: insertedRow_def)

lemma find_fresh:
  "\<forall>r\<in>set xs. \<not> P r \<Longrightarrow> P x \<Longrightarrow> find P (xs @ [x]) = Some x"
  by (induction xs) auto

lemma createContact_eq:
  "createContact cd now db =
     (Inr (rowToContact (insertedRow cd now db)),
      db\<lparr>rows := rows db @ [insertedRow cd now db], sqlite_sequence := nextId db\<rparr>)"
proof -
  have "find (\<lambda>r. id' r = nextId db \<and> deletedAt r = None) (rows db @ [insertedRow cd now db])
          = Some (insertedRow cd now db)"
    by (rule find_fresh) (auto dest: id_less_nextId)
  then show ?thesis by (simp add: createContact_def Let_def)
qed

lemma lookup_eq:
  assumes "truthy e \<or> truthy p"
  shows "findContactsByEmailOrPhone e p db =
     Inr (map rowToContact (sort_key createdAt (filter (matches e p) (rows db))))"
proof (cases "whereConditions e p")
  case Nil
  with assms show ?thesis by (auto simp: whereConditions_def split: if_splits)
next
  case (Cons c cs)
  have "(\<lambda>r. deletedAt r = None \<and> list_ex (\<lambda>cond. cond r) (whereConditions e p)) = matches e p"
    by (auto simp: fun_eq_iff whereConditions_def matches_def)
  then have "(\<lambda>r. deletedAt r = None \<and> list_ex (\<lambda>cond. cond r) (c # cs)) = matches e p"
    by (simp only: Cons)
  then show ?thesis
    by (simp only: findContactsByEmailOrPhone_def Cons list.case)
qed

lemma lookup_Inr_truthy:
  "findContactsByEmailOrPhone e p db = Inr cs \<Longrightarrow> truthy e \<or> truthy p"
  by (auto simp: findContactsByEmailOrPhone_def whereConditions_def split: if_splits)

lemma appendRow_simps [simp]:
  "rows (appendRow row db) = rows db @ [row]"
  "sqlite_sequence (appendRow row db) = nextId db"
  by (simp_all add: appendRow_def)

lemma primaryRow_simps [simp]:
  "id' (primaryRow e p now db) = nextId db"
  "phoneNumber (primaryRow e p now db) = (if truthy p then p else None)"
  "email (primaryRow e p now db) = (if truthy e then e else None)"
  "linkedId (primaryRow e p now db) = None"
  "linkPrecedence (primaryRow e p now db) = PRIMARY"
  "createdAt (primaryRow e p now db) = now"
  "updatedAt (primaryRow e p now db) = now"
  "deletedAt (primaryRow e p now db) = None"
  by (simp_all add: primaryRow_def)

lemma secondaryRow_simps [simp]:
  "id' (secondaryRow e p pid now db) = nextId db"
  "phoneNumber (secondaryRow e p pid now db) = (if truthy p then p else None)"
  "email (secondaryRow e p pid now db) = (if truthy e then e else None)"
  "linkedId (secondaryRow e p pid now db) = (if pid \<noteq> 0 then Some pid else None)"
  "linkPrecedence (secondaryRow e p pid now db) = SECONDARY"
  "createdAt (secondaryRow e p pid now db) = now"
  "updatedAt (secondaryRow e p pid now db) = now"
  "deletedAt (secondaryRow e p pid now db) = None"
  by (simp_all add: secondaryRow_def)

lemma createSecondaryContact_eq:
  "createSecondaryContact e p pid now db =
     (Inr (rowToContact (secondaryRow e p pid now db)), appendRow (secondaryRow e p pid now db) db)"
  by (simp add: createSecondaryContact_def createContact_eq insertedRow_def secondaryRow_def
        appendRow_def)

lemma createNewPrimaryContact_eq:
  "createNewPrimaryContact e p now db =
     (Inr \<lparr>primaryContactId = nextId db,
           emails = (if truthy e then [the e] else []),
           phoneNumbers = (if truthy p then [the p] else []),
           secondaryContactIds = []\<rparr>,
      appendRow (primaryRow e p now db) db)"
  by (simp add: createNewPrimaryContact_def createContact_eq insertedRow_def primaryRow_def
        appendRow_def Let_def)

text \<open>The branches of \<open>identify\<close> and of \<open>mergePrimaryContacts\<close>, one equation each.\<close>

lemma identify_lookup_error:
  "findContactsByEmailOrPhone (r_email request) (r_phoneNumber request) db = Inl e \<Longrightarrow>
   identify request now db = (Inl e, db)"
  by (simp add: identify_def Let_def)

lemma identify_create:
  "findContactsByEmailOrPhone (r_email request) (r_phoneNumber request) db = Inr [] \<Longrightarrow>
   identify request now db =
     createNewPrimaryContact (r_email request) (r_phoneNumber request) now db"
  by (simp add: identify_def Let_def)

lemma identify_attach:
  assumes "findContactsByEmailOrPhone (r_email request) (r_phoneNumber request) db = Inr cs"
    and "cs \<noteq> []" and "findPrimaryContacts cs = [P]"
  shows "identify request now db =
     (if needsSecondaryContact P (r_email request) (r_phoneNumber request)
      then (buildResponseForPrimary (id' P)
              (appendRow (secondaryRow (r_email request) (r_phoneNumber request) (id' P) now db) db),
            appendRow (secondaryRow (r_email request) (r_phoneNumber request) (id' P) now db) db)
      else (buildResponseForPrimary (id' P) db, db))"
  using assms
  by (cases cs) (simp_all add: identify_def Let_def createSecondaryContact_eq)

lemma identify_merge:
  assumes "findContactsByEmailOrPhone (r_email request) (r_phoneNumber request) db = Inr cs"
    and "cs \<noteq> []" and "length (findPrimaryContacts cs) \<noteq> 1"
  shows "identify request now db =
     mergePrimaryContacts (findPrimaryContacts cs) (r_email request) (r_phoneNumber request) now db"
proof (cases cs)
  case Nil
  with assms show ?thesis by simp
next
  case (Cons c cs')
  show ?thesis
  proof (cases "findPrimaryContacts cs")
    case Nil
    with assms Cons show ?thesis by (simp add: identify_def Let_def)
  next
    case ps: (Cons q qs)
    with assms(3) have "qs \<noteq> []" by auto
    then obtain q' qs' where "qs = q' # qs'" by (cases qs) auto
    with assms ps Cons show ?thesis by (simp add: identify_def Let_def)
  qed
qed

lemma mergePrimaryContacts_Nil:
  "sort_key createdAt ps = [] \<Longrightarrow>
   mergePrimaryContacts ps e p now db = (Inl NoPrimaryContactToMerge, db)"
  by (simp add: mergePrimaryContacts_def)

lemma mergePrimaryContacts_Cons:
  assumes "sort_key createdAt ps = oldest # others"
    and "db1 = fold (mergeInto (id' oldest) now) others db"
  shows "mergePrimaryContacts ps e p now db =
     (if hasNewInformation (findAllLinkedContacts (id' oldest) db1) e p
      then (buildResponseForPrimary (id' oldest)
              (appendRow (secondaryRow e p (id' oldest) now db1) db1),
            appendRow (secondaryRow e p (id' oldest) now db1) db1)
      else (buildResponseForPrimary (id' oldest) db1, db1))"
  using assms by (simp add: mergePrimaryContacts_def Let_def createSecondaryContact_eq)

section \<open>The link invariant\<close>

lemma find_SomeD: "find P xs = Some x \<Longrightarrow> P x \<and> x \<in> set xs"
  by (induction xs) (auto split: if_splits)

lemma mergeInto_rows:
  "rows (mergeInto oldestId now c db) =
     map (\<lambda>r. mergeRow oldestId now {id' c} r) (rows db)"
  by (auto simp: mergeInto_def updateLinkedContactsPrimaryId_def updateContactToSecondary_def
        mergeRow_def)

lemma mergeInto_sequence [simp]:
  "sqlite_sequence (mergeInto oldestId now c db) = sqlite_sequence db"
  by (simp add: mergeInto_def updateLinkedContactsPrimaryId_def updateContactToSecondary_def)

lemma mergeRow_mergeRow:
  "mergeRow oldestId now M (mergeRow oldestId now {x} r) = mergeRow oldestId now (insert x M) r"
  by (auto simp: mergeRow_def)

lemma fold_mergeInto_rows:
  "rows (fold (mergeInto oldestId now) cs db) =
     map (mergeRow oldestId now (id' ` set cs)) (rows db)"
proof (induction cs arbitrary: db)
  case Nil
  show ?case by (simp add: mergeRow_def)
next
  case (Cons c cs)
  show ?case
    by (simp add: Cons.IH mergeInto_rows mergeRow_mergeRow)
qed

lemma fold_mergeInto_sequence [simp]:
  "sqlite_sequence (fold (mergeInto oldestId now) cs db) = sqlite_sequence db"
  by (induction cs arbitrary: db) simp_all

lemma mergeRow_simps [simp]:
  "id' (mergeRow oldestId now M r) = id' r"
  "email (mergeRow oldestId now M r) = email r"
  "phoneNumber (mergeRow oldestId now M r) = phoneNumber r"
  "createdAt (mergeRow oldestId now M r) = createdAt r"
  "deletedAt (mergeRow oldestId now M r) = deletedAt r"
  by (simp_all add: mergeRow_def)

lemma nextId_fold_mergeInto [simp]:
  "nextId (fold (mergeInto oldestId now) cs db) = nextId db"
  by (simp add: nextId_def fold_mergeInto_rows comp_def)

lemma lookup_set:
  assumes "findContactsByEmailOrPhone e p db = Inr cs"
  shows "set cs = rowToContact ` {r \<in> set (rows db). matches e p r}"
  using assms lookup_eq [OF lookup_Inr_truthy [OF assms], of db] by auto

lemma cluster_set:
  "set (findAllLinkedContacts pid db) =
     rowToContact ` {r \<in> set (rows db). (id' r = pid \<or> linkedId r = Some pid) \<and> deletedAt r = None}"
  by (auto simp: findAllLinkedContacts_def)

lemma findPrimaryContacts_loop_subset:
  "set todo \<subseteq> set cs \<Longrightarrow>
   set (findPrimaryContacts_loop cs todo acc ids) \<subseteq>
     set acc \<union> {c \<in> set cs. linkPrecedence c = PRIMARY \<or>
                    (\<exists>s\<in>set todo. linkPrecedence s \<noteq> PRIMARY \<and> linkedId s = Some (id' c))}"
proof (induction todo arbitrary: acc ids)
  case Nil
  then show ?case by simp
next
  case (Cons c todo)
  then have sub: "set todo \<subseteq> set cs" and c: "c \<in> set cs" by auto
  note IH = Cons.IH [OF sub]
  show ?case
  proof (cases "linkPrecedence c = PRIMARY")
    case True
    with IH [of "acc @ [c]" "insert (id' c) ids"] c show ?thesis by auto
  next
    case False
    show ?thesis
    proof (cases "linkedId c")
      case None
      with False IH [of acc ids] show ?thesis by auto
    next
      case (Some l)
      show ?thesis
      proof (cases "l \<noteq> 0 \<and> l \<notin> ids")
        case go: True
        show ?thesis
        proof (cases "find (\<lambda>q. id' q = l) cs")
          case None
          with False Some go IH [of acc ids] show ?thesis by auto
        next
          case found: (Some q)
          then have "id' q = l" "q \<in> set cs" using find_SomeD [OF found] by auto
          with False Some go found IH [of "acc @ [q]" "insert (id' q) ids"] show ?thesis
            by auto
        qed
      next
        case stop: False
        with False Some IH [of acc ids] show ?thesis by auto
      qed
    qed
  qed
qed

lemma findPrimaryContacts_subset:
  "c \<in> set (findPrimaryContacts cs) \<Longrightarrow>
   c \<in> set cs \<and> (linkPrecedence c = PRIMARY \<or>
      (\<exists>s\<in>set cs. linkPrecedence s \<noteq> PRIMARY \<and> linkedId s = Some (id' c)))"
  using findPrimaryContacts_loop_subset [of cs cs "[]" "{}"]
  by (auto simp: findPrimaryContacts_def)

lemma buildResponse_InrD:
  assumes "buildResponseForPrimary pid db = Inr resp"
  shows "\<exists>r\<in>set (rows db). linkPrecedence r = PRIMARY \<and> deletedAt r = None \<and>
            (id' r = pid \<or> linkedId r = Some pid) \<and> primaryContactId resp = id' r"
proof -
  from assms obtain P where
    f: "find (\<lambda>c. linkPrecedence c = PRIMARY) (findAllLinkedContacts pid db) = Some P"
    and r: "primaryContactId resp = id' P"
    by (auto simp: buildResponseForPrimary_def Let_def split: option.splits)
  from find_SomeD [OF f] have "linkPrecedence P = PRIMARY" "P \<in> set (findAllLinkedContacts pid db)"
    by auto
  with r show ?thesis by (auto simp: cluster_set)
qed

lemma storeInvariant_appendRow_primary:
  assumes "storeInvariant db"
  shows "storeInvariant (appendRow (primaryRow e p now db) db)"
  using assms
  by (auto simp: storeInvariant_def dest: id_less_nextId)

lemma storeInvariant_appendRow_secondary:
  assumes "storeInvariant db" and "r0 \<in> set (rows db)" and "linkPrecedence r0 = PRIMARY"
  shows "storeInvariant (appendRow (secondaryRow e p (id' r0) now db) db)"
proof -
  from assms have "id' r0 \<noteq> 0" by (auto simp: storeInvariant_def)
  with assms show ?thesis
    unfolding storeInvariant_def
    by (auto dest: id_less_nextId)
qed

lemma storeInvariant_merged:
  assumes inv: "storeInvariant db" and r0: "r0 \<in> set (rows db)" "linkPrecedence r0 = PRIMARY"
    and notin: "id' r0 \<notin> M"
    and rows1: "rows db1 = map (mergeRow (id' r0) now M) (rows db)"
  shows "storeInvariant db1"
proof -
  have ids: "map id' (rows db1) = map id' (rows db)"
    by (simp add: rows1 comp_def)
  have prim: "mergeRow (id' r0) now M r = r"
    if "r \<in> set (rows db)" "linkPrecedence r = PRIMARY" "id' r \<notin> M" for r
    using that inv by (auto simp: mergeRow_def storeInvariant_def)
  have r0': "r0 \<in> set (rows db1)"
    using prim [OF r0 notin] r0(1) by (force simp: rows1)
  have row: "id' r' \<noteq> 0 \<and> deletedAt r' = None \<and>
        (linkPrecedence r' = PRIMARY \<longrightarrow> linkedId r' = None) \<and>
        (linkPrecedence r' = SECONDARY \<longrightarrow>
           (\<exists>q\<in>set (rows db1). linkedId r' = Some (id' q) \<and> linkPrecedence q = PRIMARY))"
    if "r' \<in> set (rows db1)" for r'
  proof -
    from that obtain r where r: "r \<in> set (rows db)" "r' = mergeRow (id' r0) now M r"
      by (auto simp: rows1)
    from inv r(1) have base: "id' r \<noteq> 0" "deletedAt r = None"
      "linkPrecedence r = PRIMARY \<longrightarrow> linkedId r = None"
      by (auto simp: storeInvariant_def)
    consider (a) "id' r \<in> M" | (b) "id' r \<notin> M" "linkedId r \<in> Some ` M"
      | (c) "id' r \<notin> M" "linkedId r \<notin> Some ` M" by blast
    then show ?thesis
    proof cases
      case a
      with r base r0' r0(2) show ?thesis by (auto simp: mergeRow_def)
    next
      case b
      with r base r0' r0(2) show ?thesis by (auto simp: mergeRow_def)
    next
      case c
      then have same: "r' = r" using r by (simp add: mergeRow_def)
      show ?thesis
      proof (cases "linkPrecedence r")
        case PRIMARY
        with same base show ?thesis by simp
      next
        case SECONDARY
        with inv r(1) obtain q where q: "q \<in> set (rows db)" "linkedId r = Some (id' q)"
          "linkPrecedence q = PRIMARY"
          by (auto simp: storeInvariant_def)
        with c have "id' q \<notin> M" by auto
        from prim [OF q(1) q(3) this] q(1) have "q \<in> set (rows db1)" by (force simp: rows1)
        with same base q SECONDARY show ?thesis by auto
      qed
    qed
  qed
  from inv have "distinct (map id' (rows db))" by (simp add: storeInvariant_def)
  with ids row show ?thesis unfolding storeInvariant_def by auto
qed

lemma found_primary_row:
  assumes inv: "storeInvariant db"
    and lookup: "findContactsByEmailOrPhone e p db = Inr cs"
    and P: "P \<in> set (findPrimaryContacts cs)"
  shows "\<exists>r0\<in>set (rows db). id' r0 = id' P \<and> linkPrecedence r0 = PRIMARY"
proof -
  from findPrimaryContacts_subset [OF P] have Pcs: "P \<in> set cs"
    and alt: "linkPrecedence P = PRIMARY \<or>
      (\<exists>s\<in>set cs. linkPrecedence s \<noteq> PRIMARY \<and> linkedId s = Some (id' P))"
    by auto
  from Pcs lookup_set [OF lookup] obtain r where r: "r \<in> set (rows db)" "P = rowToContact r"
    by auto
  from alt show ?thesis
  proof
    assume "linkPrecedence P = PRIMARY"
    with r show ?thesis by auto
  next
    assume "\<exists>s\<in>set cs. linkPrecedence s \<noteq> PRIMARY \<and> linkedId s = Some (id' P)"
    then obtain s where s: "s \<in> set cs" "linkPrecedence s \<noteq> PRIMARY" "linkedId s = Some (id' P)"
      by blast
    from s(1) lookup_set [OF lookup] obtain rs where rs: "rs \<in> set (rows db)" "s = rowToContact rs"
      by auto
    from s(3) rs(2) have l: "linkedId rs = Some (id' P)"
      by (auto split: if_splits)
    from s(2) rs(2) have "linkPrecedence rs = SECONDARY"
      by (cases "linkPrecedence rs") auto
    with inv rs(1) obtain q where "q \<in> set (rows db)" "linkedId rs = Some (id' q)"
      "linkPrecedence q = PRIMARY"
      unfolding storeInvariant_def by blast
    with l show ?thesis by auto
  qed
qed

lemma merged_primary_row:
  assumes inv: "storeInvariant db"
    and rows1: "rows db1 = map (mergeRow oldestId now M) (rows db)"
    and r': "r' \<in> set (rows db1)" "linkPrecedence r' = PRIMARY"
      "id' r' = oldestId \<or> linkedId r' = Some oldestId"
  shows "r' \<in> set (rows db) \<and> id' r' = oldestId \<and> oldestId \<notin> M"
proof -
  from r'(1) obtain r where r: "r \<in> set (rows db)" "r' = mergeRow oldestId now M r"
    by (auto simp: rows1)
  from r'(2) r(2) have notin: "id' r \<notin> M" and prim: "linkPrecedence r = PRIMARY"
    by (auto simp: mergeRow_def split: if_splits)
  with inv r(1) have "linkedId r = None" by (auto simp: storeInvariant_def)
  with notin r(2) have "r' = r" by (auto simp: mergeRow_def)
  with r(1) r'(3) \<open>linkedId r = None\<close> notin show ?thesis by auto
qed

lemma merge_preserves_invariant:
  assumes inv: "storeInvariant db"
    and res: "mergePrimaryContacts ps e p now db = (Inr resp, db')"
  shows "storeInvariant db'"
proof (cases "sort_key createdAt ps")
  case Nil
  with res show ?thesis by (simp add: mergePrimaryContacts_Nil)
next
  case (Cons oldest others)
  define db1 where "db1 = fold (mergeInto (id' oldest) now) others db"
  define M where "M = id' ` set others"
  have rows1: "rows db1 = map (mergeRow (id' oldest) now M) (rows db)"
    by (simp add: db1_def M_def fold_mergeInto_rows)
  note eq = mergePrimaryContacts_Cons [OF Cons db1_def, of e p]
  let ?db2 = "appendRow (secondaryRow e p (id' oldest) now db1) db1"
  from res eq have build: "buildResponseForPrimary (id' oldest) db' = Inr resp"
    and db': "db' = db1 \<or> db' = ?db2"
    by (auto split: if_splits)
  from buildResponse_InrD [OF build] obtain r' where r': "r' \<in> set (rows db')"
    "linkPrecedence r' = PRIMARY" "id' r' = id' oldest \<or> linkedId r' = Some (id' oldest)"
    by blast
  from db' r'(1) r'(2) have in1: "r' \<in> set (rows db1)" by auto
  from merged_primary_row [OF inv rows1 in1 r'(2) r'(3)]
  have r0: "r' \<in> set (rows db)" "id' r' = id' oldest" "id' oldest \<notin> M" by auto
  have inv1: "storeInvariant db1"
    using storeInvariant_merged [OF inv r0(1) r'(2), of M db1 now] r0 rows1 by simp
  from db' show ?thesis
  proof
    assume "db' = db1" with inv1 show ?thesis by simp
  next
    assume "db' = ?db2"
    with storeInvariant_appendRow_secondary [OF inv1 in1 r'(2), of e p now] r0(2)
    show ?thesis by simp
  qed
qed

lemma identify_preserves_invariant:
  assumes inv: "storeInvariant db"
    and res: "identify request now db = (Inr resp, db')"
  shows "storeInvariant db'"
proof (cases "findContactsByEmailOrPhone (r_email request) (r_phoneNumber request) db")
  case (Inl e)
  with res show ?thesis by (simp add: identify_lookup_error)
next
  case (Inr cs)
  show ?thesis
  proof (cases "cs = []")
    case True
    with Inr res inv show ?thesis
      by (auto simp: identify_create createNewPrimaryContact_eq
            intro: storeInvariant_appendRow_primary)
  next
    case False
    show ?thesis
    proof (cases "length (findPrimaryContacts cs) = 1")
      case True
      then obtain P where P: "findPrimaryContacts cs = [P]"
        by (cases "findPrimaryContacts cs") auto
      then have "P \<in> set (findPrimaryContacts cs)" by simp
      from found_primary_row [OF inv Inr this] obtain r0 where
        r0: "r0 \<in> set (rows db)" "id' r0 = id' P" "linkPrecedence r0 = PRIMARY" by blast
      from storeInvariant_appendRow_secondary [OF inv r0(1) r0(3)] r0(2)
      have "storeInvariant
              (appendRow (secondaryRow (r_email request) (r_phoneNumber request) (id' P) now db) db)"
        by simp
      with res inv show ?thesis
        by (auto simp: identify_attach [OF Inr False P] split: if_splits)
    next
      case ne: False
      from res have "mergePrimaryContacts (findPrimaryContacts cs) (r_email request)
                       (r_phoneNumber request) now db = (Inr resp, db')"
        by (simp only: identify_merge [OF Inr False ne])
      from merge_preserves_invariant [OF inv this] show ?thesis .
    qed
  qed
qed

lemma storeInvariant_empty: "storeInvariant emptyDatabase"
  by (simp add: storeInvariant_def emptyDatabase_def)

lemma completed_invariant: "completed db \<Longrightarrow> storeInvariant db"
  by (induction rule: completed.induct)
     (auto intro: storeInvariant_empty identify_preserves_invariant)

section \<open>The projection of a cluster\<close>

lemma presentValues_simps [simp]:
  "presentValues [] = []"
  "presentValues (v # vs) = (if truthy v then the v # presentValues vs else presentValues vs)"
  by (simp_all add: presentValues_def)

lemma pushNew_Nil: "pushNew v [] = presentValues [v]"
  by (cases v) (auto simp: pushNew_def)

lemma set_pushNew: "set (pushNew v acc) = set acc \<union> set (presentValues [v])"
  by (cases v) (auto simp: pushNew_def)

lemma distinct_pushNew: "distinct acc \<Longrightarrow> distinct (pushNew v acc)"
  by (cases v) (auto simp: pushNew_def)

lemma fold_pushNew_distinct:
  "distinct acc \<Longrightarrow> distinct (fold (\<lambda>c. pushNew (f c)) cs acc)"
  by (induction cs arbitrary: acc) (simp_all add: distinct_pushNew)

lemma fold_pushNew_set:
  "set (fold (\<lambda>c. pushNew (f c)) cs acc) = set acc \<union> set (presentValues (map f cs))"
proof (induction cs arbitrary: acc)
  case Nil
  show ?case by simp
next
  case (Cons c cs)
  show ?case
    by (auto simp: Cons.IH set_pushNew split: if_splits)
qed

lemma fold_pushNew_subseq:
  "\<exists>rest. fold (\<lambda>c. pushNew (f c)) cs acc = acc @ rest \<and> subseq rest (presentValues (map f cs))"
proof (induction cs arbitrary: acc)
  case Nil
  show ?case by simp
next
  case (Cons c cs)
  show ?case
  proof (cases "pushNew (f c) acc = acc")
    case True
    from Cons.IH [of acc] obtain rest where
      "fold (\<lambda>c. pushNew (f c)) cs acc = acc @ rest" "subseq rest (presentValues (map f cs))"
      by blast
    with True show ?thesis by (auto intro: subseq_Cons')
  next
    case False
    then obtain s where s: "f c = Some s" "s \<noteq> []" "pushNew (f c) acc = acc @ [s]"
      by (auto simp: pushNew_def split: option.splits if_splits)
    from Cons.IH [of "acc @ [s]"] obtain rest where
      "fold (\<lambda>c. pushNew (f c)) cs (acc @ [s]) = (acc @ [s]) @ rest"
      "subseq rest (presentValues (map f cs))"
      by blast
    with s show ?thesis by (intro exI [of _ "s # rest"]) auto
  qed
qed

lemma buildResponse_projection:
  assumes inv: "storeInvariant db" and res: "buildResponseForPrimary pid db = Inr resp"
  shows "\<exists>P. find (\<lambda>c. linkPrecedence c = PRIMARY) (findAllLinkedContacts pid db) = Some P
           \<and> primaryContactId resp = pid
           \<and> projectionOf resp P
                (filter (\<lambda>c. linkPrecedence c \<noteq> PRIMARY) (findAllLinkedContacts pid db))"
proof -
  let ?cluster = "findAllLinkedContacts pid db"
  let ?secs = "filter (\<lambda>c. linkPrecedence c = SECONDARY) ?cluster"
  have secs: "filter (\<lambda>c. linkPrecedence c \<noteq> PRIMARY) ?cluster = ?secs"
    by (rule filter_cong) (auto intro: LinkPrecedence.exhaust)
  from res obtain P where
    f: "find (\<lambda>c. linkPrecedence c = PRIMARY) ?cluster = Some P"
    and resp: "resp = \<lparr>primaryContactId = id' P,
                  emails = fold (\<lambda>c. pushNew (email c)) ?secs (pushNew (email P) []),
                  phoneNumbers = fold (\<lambda>c. pushNew (phoneNumber c)) ?secs
                                   (pushNew (phoneNumber P) []),
                  secondaryContactIds = map id' ?secs\<rparr>"
    by (auto simp: buildResponseForPrimary_def Let_def split: option.splits)
  from find_SomeD [OF f] have P: "linkPrecedence P = PRIMARY" "P \<in> set ?cluster" by auto
  then obtain r where r: "r \<in> set (rows db)" "P = rowToContact r"
    "id' r = pid \<or> linkedId r = Some pid"
    by (auto simp: cluster_set)
  with P(1) inv have "linkedId r = None" by (auto simp: storeInvariant_def)
  with r have idP: "id' P = pid" by auto
  obtain me where me: "fold (\<lambda>c. pushNew (email c)) ?secs (presentValues [email P])
      = presentValues [email P] @ me" "subseq me (presentValues (map email ?secs))"
    using fold_pushNew_subseq [of email ?secs "presentValues [email P]"] by blast
  obtain mp where mp: "fold (\<lambda>c. pushNew (phoneNumber c)) ?secs (presentValues [phoneNumber P])
      = presentValues [phoneNumber P] @ mp" "subseq mp (presentValues (map phoneNumber ?secs))"
    using fold_pushNew_subseq [of phoneNumber ?secs "presentValues [phoneNumber P]"] by blast
  have d: "distinct (presentValues [v])" for v by simp
  have u: "set (presentValues [v]) \<union> set (presentValues vs) = set (presentValues (v # vs))"
    for v vs by auto
  have e1: "emails resp = presentValues [email P] @ me"
    by (simp only: resp pushNew_Nil me(1) IdentifyResponse.simps)
  have p1: "phoneNumbers resp = presentValues [phoneNumber P] @ mp"
    by (simp only: resp pushNew_Nil mp(1) IdentifyResponse.simps)
  have e2: "distinct (emails resp)"
    by (simp only: resp pushNew_Nil IdentifyResponse.simps fold_pushNew_distinct [OF d])
  have p2: "distinct (phoneNumbers resp)"
    by (simp only: resp pushNew_Nil IdentifyResponse.simps fold_pushNew_distinct [OF d])
  have e3: "set (emails resp) = set (presentValues (map email (P # ?secs)))"
    by (simp only: resp pushNew_Nil IdentifyResponse.simps fold_pushNew_set u list.map)
  have p3: "set (phoneNumbers resp) = set (presentValues (map phoneNumber (P # ?secs)))"
    by (simp only: resp pushNew_Nil IdentifyResponse.simps fold_pushNew_set u list.map)
  have i: "primaryContactId resp = id' P" "secondaryContactIds resp = map id' ?secs"
    by (simp_all only: resp IdentifyResponse.simps)
  have e0: "truthy (email P) \<longrightarrow> emails resp \<noteq> [] \<and> Some (hd (emails resp)) = email P"
    unfolding e1 by (cases "email P") auto
  have p0: "truthy (phoneNumber P) \<longrightarrow>
      phoneNumbers resp \<noteq> [] \<and> Some (hd (phoneNumbers resp)) = phoneNumber P"
    unfolding p1 by (cases "phoneNumber P") auto
  have "projectionOf resp P ?secs"
    unfolding projectionOf_def
    using e0 p0 e1 p1 e2 p2 e3 p3 i me(2) mp(2) by blast
  with f idP i secs show ?thesis by simp
qed

lemma cluster_sorted: "sorted (map createdAt (findAllLinkedContacts pid db))"
  by (simp add: findAllLinkedContacts_def comp_def)

lemma secondaries_sorted:
  "sorted (map createdAt (filter Q (findAllLinkedContacts pid db)))"
  by (rule sorted_filter [OF cluster_sorted])

lemma cluster_fresh:
  assumes inv: "storeInvariant db" and row: "id' row = nextId db" "deletedAt row = None"
  shows "findAllLinkedContacts (nextId db) (appendRow row db) = [rowToContact row]"
proof -
  have "\<not> ((id' r = nextId db \<or> linkedId r = Some (nextId db)) \<and> deletedAt r = None)"
    if r: "r \<in> set (rows db)" for r
  proof -
    from id_less_nextId [OF r] have a: "id' r \<noteq> nextId db" by simp
    have "linkedId r \<noteq> Some (nextId db)"
    proof (cases "linkPrecedence r")
      case PRIMARY
      with inv r show ?thesis by (auto simp: storeInvariant_def)
    next
      case SECONDARY
      with inv r obtain q where "q \<in> set (rows db)" "linkedId r = Some (id' q)"
        unfolding storeInvariant_def by blast
      with id_less_nextId [of q db] show ?thesis by auto
    qed
    with a show ?thesis by simp
  qed
  then have "filter (\<lambda>r. (id' r = nextId db \<or> linkedId r = Some (nextId db)) \<and> deletedAt r = None)
               (rows db) = []"
    by (simp add: filter_empty_conv)
  with row show ?thesis by (simp add: findAllLinkedContacts_def)
qed

lemma create_projection:
  assumes inv: "storeInvariant db"
    and res: "createNewPrimaryContact e p now db = (Inr resp, db')"
  shows "findAllLinkedContacts (primaryContactId resp) db' = [rowToContact (primaryRow e p now db)]
         \<and> projectionOf resp (rowToContact (primaryRow e p now db)) []"
proof -
  from res have resp: "resp = \<lparr>primaryContactId = nextId db,
           emails = (if truthy e then [the e] else []),
           phoneNumbers = (if truthy p then [the p] else []),
           secondaryContactIds = []\<rparr>"
    and db': "db' = appendRow (primaryRow e p now db) db"
    by (simp_all add: createNewPrimaryContact_eq)
  have c: "findAllLinkedContacts (primaryContactId resp) db' = [rowToContact (primaryRow e p now db)]"
    unfolding db' resp using cluster_fresh [OF inv, of "primaryRow e p now db"] by simp
  have "projectionOf resp (rowToContact (primaryRow e p now db)) []"
    unfolding projectionOf_def resp
    by (cases e; cases p) auto
  with c show ?thesis by simp
qed

section \<open>The sample history\<close>

lemma sample_create_first:
  "identify \<lparr>r_email = Some ''a@x.com'', r_phoneNumber = Some ''+1''\<rparr> 1 emptyDatabase =
     (Inr \<lparr>primaryContactId = 1, emails = [''a@x.com''], phoneNumbers = [''+1''],
           secondaryContactIds = []\<rparr>, sampleOnePrimary)"
  by code_simp

lemma sample_create_second:
  "identify \<lparr>r_email = Some ''b@x.com'', r_phoneNumber = Some ''+2''\<rparr> 2 sampleOnePrimary =
     (Inr \<lparr>primaryContactId = 2, emails = [''b@x.com''], phoneNumbers = [''+2''],
           secondaryContactIds = []\<rparr>, sampleTwoPrimaries)"
  by code_simp

lemma sample_merge:
  "identify \<lparr>r_email = Some ''a@x.com'', r_phoneNumber = Some ''+2''\<rparr> 9 sampleTwoPrimaries =
     (Inr \<lparr>primaryContactId = 1, emails = [''a@x.com'', ''b@x.com''],
           phoneNumbers = [''+1'', ''+2''], secondaryContactIds = [2]\<rparr>, sampleMerged)"
  by code_simp

lemma completed_sampleTwoPrimaries: "completed sampleTwoPrimaries"
  by (rule completed_identify [OF completed_identify [OF completed_empty sample_create_first]
        sample_create_second])

lemma completed_sampleMerged: "completed sampleMerged"
  by (rule completed_identify [OF completed_sampleTwoPrimaries sample_merge])

lemma sample_attach:
  "identify \<lparr>r_email = Some ''a@x.com'', r_phoneNumber = Some ''+2''\<rparr> 2 sampleOnePrimary =
     (Inr \<lparr>primaryContactId = 1, emails = [''a@x.com''], phoneNumbers = [''+1'', ''+2''],
           secondaryContactIds = [2]\<rparr>, sampleAttached)"
  by code_simp

lemma sample_create_third:
  "identify \<lparr>r_email = Some ''c@x.com'', r_phoneNumber = Some ''+3''\<rparr> 3 sampleAttached =
     (Inr \<lparr>primaryContactId = 3, emails = [''c@x.com''], phoneNumbers = [''+3''],
           secondaryContactIds = []\<rparr>, sampleTwoClusters)"
  by code_simp

lemma completed_sampleAttached: "completed sampleAttached"
  by (rule completed_identify [OF completed_identify [OF completed_empty sample_create_first]
        sample_attach])

lemma completed_sampleTwoClusters: "completed sampleTwoClusters"
  by (rule completed_identify [OF completed_sampleAttached sample_create_third])

section \<open>Detecting new information\<close>

lemma needsSecondaryContact_iff:
  "needsSecondaryContact P e p \<longleftrightarrow>
     (truthy e \<and> email P \<noteq> e) \<or> (truthy p \<and> phoneNumber P \<noteq> p)"
  by (auto simp: needsSecondaryContact_def Let_def)

lemma hasNewInformation_iff:
  "hasNewInformation contacts e p \<longleftrightarrow>
     (truthy e \<and> e \<notin> email ` set contacts) \<or> (truthy p \<and> p \<notin> phoneNumber ` set contacts)"
  by (auto simp: hasNewInformation_def Let_def)

lemma findPrimaryContacts_Nil [simp]: "findPrimaryContacts [] = []"
  by (simp add: findPrimaryContacts_def)

section \<open>Resolving primaries and merging\<close>

lemma sort_key_first_least:
  fixes f :: "'a \<Rightarrow> nat"
  assumes "\<forall>c\<in>set before. f w < f c" and "\<forall>c\<in>set after. f w \<le> f c"
  shows "sort_key f (before @ w # after) = w # sort_key f (before @ after)"
  using assms
proof (induction before)
  case Nil
  then show ?case by (simp add: insort_is_Cons)
next
  case (Cons a before)
  then have "\<not> f a \<le> f w" by auto
  with Cons show ?case by simp
qed

lemma findPrimaryContacts_loop_filter:
  assumes "cs = seen @ todo"
    and "sorted_wrt (\<lambda>a b. linkedId a \<noteq> Some (id' b)) cs"
    and "distinct (map id' cs)"
    and "\<forall>c\<in>set cs. \<forall>q\<in>set cs. linkedId c = Some (id' q) \<longrightarrow> linkPrecedence q = PRIMARY"
  shows "findPrimaryContacts_loop cs todo
           (filter (\<lambda>c. linkPrecedence c = PRIMARY) seen)
           (id' ` {c \<in> set seen. linkPrecedence c = PRIMARY})
         = filter (\<lambda>c. linkPrecedence c = PRIMARY) cs"
  using assms(1)
proof (induction todo arbitrary: seen)
  case Nil
  then show ?case by simp
next
  case (Cons c todo)
  then have cs: "cs = (seen @ [c]) @ todo" by simp
  note IH = Cons.IH [OF cs]
  show ?case
  proof (cases "linkPrecedence c = PRIMARY")
    case True
    have "id' ` {x \<in> set (seen @ [c]). linkPrecedence x = PRIMARY}
            = insert (id' c) (id' ` {x \<in> set seen. linkPrecedence x = PRIMARY})"
      using True by auto
    with IH True show ?thesis by simp
  next
    case False
    have same: "id' ` {x \<in> set (seen @ [c]). linkPrecedence x = PRIMARY}
            = id' ` {x \<in> set seen. linkPrecedence x = PRIMARY}"
      using False by auto
    have nofind: "find (\<lambda>q. id' q = l) cs = None"
      if l: "linkedId c = Some l" "l \<notin> id' ` {x \<in> set seen. linkPrecedence x = PRIMARY}" for l
    proof (rule ccontr)
      assume "find (\<lambda>q. id' q = l) cs \<noteq> None"
      then obtain q where "find (\<lambda>q. id' q = l) cs = Some q" by auto
      from find_SomeD [OF this] have q: "id' q = l" "q \<in> set cs" by auto
      have c: "c \<in> set cs" using Cons.prems by simp
      from assms(4) c q l(1) have qp: "linkPrecedence q = PRIMARY" by auto
      from q(2) Cons.prems consider "q \<in> set seen" | "q = c" | "q \<in> set todo" by auto
      then show False
      proof cases
        case 1
        with qp q(1) l(2) show False by auto
      next
        case 2
        with qp False show False by simp
      next
        case 3
        from assms(2) Cons.prems have "\<forall>y\<in>set todo. linkedId c \<noteq> Some (id' y)"
          by (simp add: sorted_wrt_append)
        with 3 q(1) l(1) show False by auto
      qed
    qed
    show ?thesis
    proof (cases "linkedId c")
      case None
      with False IH same show ?thesis by simp
    next
      case (Some l)
      show ?thesis
      proof (cases "l \<noteq> 0 \<and> l \<notin> id' ` {x \<in> set seen. linkPrecedence x = PRIMARY}")
        case True
        with nofind [OF Some] have "find (\<lambda>q. id' q = l) cs = None" by simp
        with False Some True IH same show ?thesis by simp
      next
        case stop: False
        with False Some IH same show ?thesis by auto
      qed
    qed
  qed
qed

lemma findPrimaryContacts_filter:
  assumes "sorted_wrt (\<lambda>a b. linkedId a \<noteq> Some (id' b)) cs"
    and "distinct (map id' cs)"
    and "\<forall>c\<in>set cs. \<forall>q\<in>set cs. linkedId c = Some (id' q) \<longrightarrow> linkPrecedence q = PRIMARY"
  shows "findPrimaryContacts cs = filter (\<lambda>c. linkPrecedence c = PRIMARY) cs"
  using findPrimaryContacts_loop_filter [of cs "[]" cs, OF _ assms]
  by (simp add: findPrimaryContacts_def)

lemma lookup_distinct:
  assumes "distinct (map id' (rows db))" and "findContactsByEmailOrPhone e p db = Inr cs"
  shows "distinct (map id' cs)"
proof -
  let ?L = "sort_key createdAt (filter (matches e p) (rows db))"
  from assms(2) have cs: "cs = map rowToContact ?L"
    using lookup_eq [OF lookup_Inr_truthy [OF assms(2)], of db] by simp
  from assms(1) have "distinct (rows db)" "inj_on id' (set (rows db))"
    by (simp_all add: distinct_map)
  then have "distinct ?L" "inj_on id' (set ?L)"
    by (auto intro: inj_on_subset)
  then have "distinct (map id' ?L)" by (simp add: distinct_map)
  then show ?thesis by (simp add: cs comp_def)
qed

lemma lookup_link_targets:
  assumes inv: "storeInvariant db" and lookup: "findContactsByEmailOrPhone e p db = Inr cs"
    and c: "c \<in> set cs" and q: "q \<in> set cs" and l: "linkedId c = Some (id' q)"
  shows "linkPrecedence q = PRIMARY"
proof -
  from c q lookup_set [OF lookup] obtain rc rq where
    rc: "rc \<in> set (rows db)" "c = rowToContact rc" and rq: "rq \<in> set (rows db)" "q = rowToContact rq"
    by auto
  from l rc(2) rq(2) have l': "linkedId rc = Some (id' rq)" by (auto split: if_splits)
  with inv rc(1) have "linkPrecedence rc = SECONDARY"
    by (cases "linkPrecedence rc") (auto simp: storeInvariant_def)
  with inv rc(1) obtain r0 where r0: "r0 \<in> set (rows db)" "linkedId rc = Some (id' r0)"
    "linkPrecedence r0 = PRIMARY"
    unfolding storeInvariant_def by blast
  with l' have "id' r0 = id' rq" by simp
  moreover from inv have "inj_on id' (set (rows db))"
    by (simp add: storeInvariant_def distinct_map)
  ultimately have "r0 = rq" using r0(1) rq(1) by (auto dest: inj_onD)
  with r0(3) rq(2) show ?thesis by simp
qed

lemma buildResponse_ok:
  assumes inv: "storeInvariant db"
    and r0: "r0 \<in> set (rows db)" "id' r0 = pid" "linkPrecedence r0 = PRIMARY"
  shows "\<exists>resp. buildResponseForPrimary pid db = Inr resp \<and> primaryContactId resp = pid"
proof -
  from inv r0(1) have "deletedAt r0 = None" by (auto simp: storeInvariant_def)
  with r0 have "rowToContact r0 \<in> set (findAllLinkedContacts pid db)"
    by (auto simp: cluster_set)
  with r0(3) have "find (\<lambda>c. linkPrecedence c = PRIMARY) (findAllLinkedContacts pid db) \<noteq> None"
    by (auto simp: find_None_iff)
  then obtain resp where b: "buildResponseForPrimary pid db = Inr resp"
    by (auto simp: buildResponseForPrimary_def Let_def)
  from buildResponse_projection [OF inv b] b show ?thesis by auto
qed

lemma secondaryRow_nextId:
  "nextId db1 = nextId db \<Longrightarrow> secondaryRow e p pid now db1 = secondaryRow e p pid now db"
  by (simp add: secondaryRow_def)

lemma merge_result:
  assumes inv: "storeInvariant db"
    and sorted: "sort_key createdAt ps = oldest # others"
    and r0: "r0 \<in> set (rows db)" "id' r0 = id' oldest" "linkPrecedence r0 = PRIMARY"
    and notin: "id' oldest \<notin> id' ` set others"
  shows "\<exists>resp db'. mergePrimaryContacts ps e p now db = (Inr resp, db')
           \<and> primaryContactId resp = id' oldest
           \<and> storeInvariant db'
           \<and> (rows db' = map (mergeRow (id' oldest) now (id' ` set others)) (rows db)
              \<or> rows db' = map (mergeRow (id' oldest) now (id' ` set others)) (rows db)
                           @ [secondaryRow e p (id' oldest) now db])"
proof -
  define db1 where "db1 = fold (mergeInto (id' oldest) now) others db"
  define M where "M = id' ` set others"
  have rows1: "rows db1 = map (mergeRow (id' oldest) now M) (rows db)"
    by (simp add: db1_def M_def fold_mergeInto_rows)
  have next1: "nextId db1 = nextId db" by (simp add: db1_def)
  from notin r0(2) have notin': "id' r0 \<notin> M" by (simp add: M_def)
  have inv1: "storeInvariant db1"
    using storeInvariant_merged [OF inv r0(1) r0(3) notin', of db1 now] rows1 r0(2) by simp
  from inv r0 have "linkedId r0 = None" by (auto simp: storeInvariant_def)
  with notin' have "mergeRow (id' oldest) now M r0 = r0" by (simp add: mergeRow_def)
  with r0(1) have in1: "r0 \<in> set (rows db1)" by (force simp: rows1)
  let ?db2 = "appendRow (secondaryRow e p (id' oldest) now db1) db1"
  have inv2: "storeInvariant ?db2"
    using storeInvariant_appendRow_secondary [OF inv1 in1 r0(3), of e p now] r0(2) by simp
  have in2: "r0 \<in> set (rows ?db2)" using in1 by simp
  note eq = mergePrimaryContacts_Cons [OF sorted db1_def, of e p]
  show ?thesis
  proof (cases "hasNewInformation (findAllLinkedContacts (id' oldest) db1) e p")
    case True
    from buildResponse_ok [OF inv2 in2 r0(2) r0(3)] obtain resp where
      "buildResponseForPrimary (id' oldest) ?db2 = Inr resp" "primaryContactId resp = id' oldest"
      by blast
    with True eq inv2 rows1 show ?thesis
      by (auto simp: M_def secondaryRow_nextId [OF next1])
  next
    case False
    from buildResponse_ok [OF inv1 in1 r0(2) r0(3)] obtain resp where
      "buildResponseForPrimary (id' oldest) db1 = Inr resp" "primaryContactId resp = id' oldest"
      by blast
    with False eq inv1 rows1 show ?thesis
      by (auto simp: M_def)
  qed
qed

section \<open>The outcome of a merge\<close>

lemma identify_merge_result:
  assumes inv: "storeInvariant db"
    and lookup: "findContactsByEmailOrPhone (r_email request) (r_phoneNumber request) db = Inr cs"
    and order: "sorted_wrt (\<lambda>a b. linkedId a \<noteq> Some (id' b)) cs"
    and prim: "filter (\<lambda>c. linkPrecedence c = PRIMARY) cs = before @ w # after"
    and two: "before @ after \<noteq> []"
    and younger: "\<forall>c\<in>set before. createdAt w < createdAt c"
    and not_older: "\<forall>c\<in>set after. createdAt w \<le> createdAt c"
  shows "\<exists>resp db'. identify request now db = (Inr resp, db')
           \<and> primaryContactId resp = id' w
           \<and> (rows db' = map (mergeRow (id' w) now (id' ` set (before @ after))) (rows db)
              \<or> rows db' = map (mergeRow (id' w) now (id' ` set (before @ after))) (rows db)
                    @ [secondaryRow (r_email request) (r_phoneNumber request) (id' w) now db])
           \<and> (\<exists>r0\<in>set (rows db). id' r0 = id' w \<and> linkPrecedence r0 = PRIMARY
                 \<and> mergeRow (id' w) now (id' ` set (before @ after)) r0 = r0)
           \<and> (\<forall>c\<in>set (before @ after). \<exists>rc\<in>set (rows db). id' rc = id' c)"
proof -
  let ?e = "r_email request" and ?p = "r_phoneNumber request"
  have dcs: "distinct (map id' cs)"
    using inv lookup by (auto simp: storeInvariant_def intro: lookup_distinct)
  have targets: "\<forall>c\<in>set cs. \<forall>q\<in>set cs. linkedId c = Some (id' q) \<longrightarrow> linkPrecedence q = PRIMARY"
    using lookup_link_targets [OF inv lookup] by blast
  have ps: "findPrimaryContacts cs = before @ w # after"
    using findPrimaryContacts_filter [OF order dcs targets] prim by simp
  from prim have ne: "cs \<noteq> []" by auto
  from two have len: "length (findPrimaryContacts cs) \<noteq> 1"
    unfolding ps by (cases before; cases after) auto
  have id: "identify request now db = mergePrimaryContacts (before @ w # after) ?e ?p now db"
    using identify_merge [OF lookup ne len] ps by simp
  define others where "others = sort_key createdAt (before @ after)"
  have sorted: "sort_key createdAt (before @ w # after) = w # others"
    unfolding others_def by (rule sort_key_first_least [OF younger not_older])
  have M: "id' ` set others = id' ` set (before @ after)" by (simp add: others_def)
  have "distinct (map id' (filter (\<lambda>c. linkPrecedence c = PRIMARY) cs))"
    using dcs by (rule distinct_map_filter)
  then have notin: "id' w \<notin> id' ` set others"
    unfolding prim M by auto
  have sub: "set (before @ w # after) \<subseteq> set cs"
    unfolding prim [symmetric] by auto
  have "w \<in> set (filter (\<lambda>c. linkPrecedence c = PRIMARY) cs)"
    unfolding prim by simp
  then have wp: "linkPrecedence w = PRIMARY" by simp
  from sub lookup_set [OF lookup] obtain r0 where
    r0: "r0 \<in> set (rows db)" "w = rowToContact r0" by auto
  with wp have r0': "id' r0 = id' w" "linkPrecedence r0 = PRIMARY" by auto
  from merge_result [OF inv sorted r0(1) r0' notin, of ?e ?p now] obtain resp db' where
    res: "mergePrimaryContacts (before @ w # after) ?e ?p now db = (Inr resp, db')"
      "primaryContactId resp = id' w"
    and rows': "rows db' = map (mergeRow (id' w) now (id' ` set others)) (rows db)
              \<or> rows db' = map (mergeRow (id' w) now (id' ` set others)) (rows db)
                           @ [secondaryRow ?e ?p (id' w) now db]"
    by blast
  from inv r0(1) r0'(2) have "linkedId r0 = None" by (auto simp: storeInvariant_def)
  with notin r0' have keep: "mergeRow (id' w) now (id' ` set others) r0 = r0"
    by (simp add: mergeRow_def)
  have rowsOf: "\<exists>rc\<in>set (rows db). id' rc = id' c" if c: "c \<in> set (before @ after)" for c
  proof -
    from c sub have "c \<in> set cs" by auto
    with lookup_set [OF lookup] obtain rc where "rc \<in> set (rows db)" "c = rowToContact rc"
      by auto
    then show ?thesis by auto
  qed
  from res id rows' keep r0(1) r0' rowsOf show ?thesis
    unfolding M by auto
qed

section \<open>Well-formed tables\<close>

lemma wellFormed_invariant: "wellFormed db \<Longrightarrow> storeInvariant db"
  by (simp add: wellFormed_def)

lemma wellFormed_rowToContact:
  assumes "wellFormed db" and "r \<in> set (rows db)"
  shows "rowToContact r = r"
proof -
  from assms have a: "email r \<noteq> Some []" "phoneNumber r \<noteq> Some []" "deletedAt r = None"
    by (auto simp: wellFormed_def storeInvariant_def)
  have l: "linkedId r \<noteq> Some 0"
  proof (cases "linkPrecedence r")
    case PRIMARY
    with assms show ?thesis by (auto simp: wellFormed_def storeInvariant_def)
  next
    case SECONDARY
    with assms obtain q where "q \<in> set (rows db)" "linkedId r = Some (id' q)"
      unfolding wellFormed_def storeInvariant_def by blast
    moreover from this assms have "id' q \<noteq> 0" by (auto simp: wellFormed_def storeInvariant_def)
    ultimately show ?thesis by auto
  qed
  have e: "(if truthy (email r) then email r else None) = email r"
    using a(1) by (cases "email r") auto
  have p: "(if truthy (phoneNumber r) then phoneNumber r else None) = phoneNumber r"
    using a(2) by (cases "phoneNumber r") auto
  have k: "(if truthy_num (linkedId r) then linkedId r else None) = linkedId r"
    using l by (cases "linkedId r") auto
  show ?thesis
    unfolding rowToContact_def e p k by (cases r) simp
qed

lemma wellFormed_sort:
  assumes "wellFormed db"
  shows "sort_key createdAt (filter Q (rows db)) = filter Q (rows db)"
proof -
  from assms have "sorted (map createdAt (rows db))" by (simp add: wellFormed_def)
  then have "sorted (map createdAt (filter Q (rows db)))" by (rule sorted_filter)
  then show ?thesis by (rule sort_key_id_if_sorted)
qed

lemma wellFormed_lookup:
  assumes wf: "wellFormed db" and t: "truthy e \<or> truthy p"
  shows "findContactsByEmailOrPhone e p db = Inr (filter (matches e p) (rows db))"
proof -
  have "map rowToContact (filter (matches e p) (rows db)) = filter (matches e p) (rows db)"
    by (rule map_idI) (auto intro: wellFormed_rowToContact [OF wf])
  then show ?thesis
    by (simp add: lookup_eq [OF t] wellFormed_sort [OF wf])
qed

lemma wellFormed_no_forward_link:
  assumes wf: "wellFormed db"
  shows "sorted_wrt (\<lambda>a b. linkedId a \<noteq> Some (id' b)) (rows db)"
proof -
  from wf have "sorted_wrt (\<lambda>a b. id' a < id' b) (rows db)"
    by (simp add: wellFormed_def sorted_wrt_map)
  then show ?thesis
  proof (rule sorted_wrt_mono_rel [rotated])
    fix a b assume "a \<in> set (rows db)" "b \<in> set (rows db)" "id' a < id' b"
    with wf show "linkedId a \<noteq> Some (id' b)"
      by (fastforce simp: wellFormed_def)
  qed
qed

lemma wellFormed_findPrimaryContacts:
  assumes wf: "wellFormed db" and t: "truthy e \<or> truthy p"
  shows "findPrimaryContacts (filter (matches e p) (rows db)) =
           filter (\<lambda>c. linkPrecedence c = PRIMARY) (filter (matches e p) (rows db))"
proof -
  note lookup = wellFormed_lookup [OF wf t]
  note inv = wellFormed_invariant [OF wf]
  have "sorted_wrt (\<lambda>a b. linkedId a \<noteq> Some (id' b)) (filter (matches e p) (rows db))"
    by (rule sorted_wrt_filter [OF wellFormed_no_forward_link [OF wf]])
  moreover have "distinct (map id' (filter (matches e p) (rows db)))"
    using inv lookup by (auto simp: storeInvariant_def intro: lookup_distinct)
  moreover have "\<forall>c\<in>set (filter (matches e p) (rows db)).
      \<forall>q\<in>set (filter (matches e p) (rows db)).
        linkedId c = Some (id' q) \<longrightarrow> linkPrecedence q = PRIMARY"
    using lookup_link_targets [OF inv lookup] by blast
  ultimately show ?thesis by (rule findPrimaryContacts_filter)
qed

lemma wellFormedI:
  assumes "storeInvariant db"
    and "sorted_wrt (<) (map id' (rows db))"
    and "sorted (map createdAt (rows db))"
    and "\<And>r l. r \<in> set (rows db) \<Longrightarrow> linkedId r = Some l \<Longrightarrow> l < id' r"
    and "\<And>r. r \<in> set (rows db) \<Longrightarrow> email r \<noteq> Some [] \<and> phoneNumber r \<noteq> Some [] \<and>
            (truthy (email r) \<or> truthy (phoneNumber r))"
    and "\<And>P c. P \<in> set (rows db) \<Longrightarrow> c \<in> set (rows db) \<Longrightarrow> linkPrecedence P = PRIMARY \<Longrightarrow>
            sharesValue c P \<Longrightarrow> c = P \<or> linkedId c = Some (id' P)"
  shows "wellFormed db"
  unfolding wellFormed_def using assms by blast

lemma wellFormed_link: "wellFormed db \<Longrightarrow> r \<in> set (rows db) \<Longrightarrow> linkedId r = Some l \<Longrightarrow> l < id' r"
  unfolding wellFormed_def by blast

lemma wellFormed_values:
  "wellFormed db \<Longrightarrow> r \<in> set (rows db) \<Longrightarrow>
   email r \<noteq> Some [] \<and> phoneNumber r \<noteq> Some [] \<and> (truthy (email r) \<or> truthy (phoneNumber r))"
  unfolding wellFormed_def by blast

lemma wellFormed_shares:
  "wellFormed db \<Longrightarrow> P \<in> set (rows db) \<Longrightarrow> c \<in> set (rows db) \<Longrightarrow>
   linkPrecedence P = PRIMARY \<Longrightarrow> sharesValue c P \<Longrightarrow> c = P \<or> linkedId c = Some (id' P)"
  unfolding wellFormed_def by blast

lemma wellFormed_ids: "wellFormed db \<Longrightarrow> sorted_wrt (<) (map id' (rows db))"
  by (simp add: wellFormed_def)

lemma wellFormed_times: "wellFormed db \<Longrightarrow> sorted (map createdAt (rows db))"
  by (simp add: wellFormed_def)

lemma same_id_same_row:
  assumes "storeInvariant db" and "a \<in> set (rows db)" and "b \<in> set (rows db)" and "id' a = id' b"
  shows "a = b"
proof -
  from assms(1) have "inj_on id' (set (rows db))" by (simp add: storeInvariant_def distinct_map)
  with assms(2-4) show ?thesis by (auto dest: inj_onD)
qed

lemma wellFormed_appendRow:
  assumes wf: "wellFormed db"
    and clock: "\<forall>r\<in>set (rows db). createdAt r \<le> now"
    and inv': "storeInvariant (appendRow row db)"
    and row: "id' row = nextId db" "createdAt row = now"
    and link: "\<And>l. linkedId row = Some l \<Longrightarrow> l < nextId db"
    and vals: "email row \<noteq> Some []" "phoneNumber row \<noteq> Some []"
              "truthy (email row) \<or> truthy (phoneNumber row)"
    and share1: "\<And>P. P \<in> set (rows db) \<Longrightarrow> linkPrecedence P = PRIMARY \<Longrightarrow> sharesValue row P
                   \<Longrightarrow> linkedId row = Some (id' P)"
    and share2: "\<And>c. linkPrecedence row = PRIMARY \<Longrightarrow> c \<in> set (rows db) \<Longrightarrow> \<not> sharesValue c row"
  shows "wellFormed (appendRow row db)"
proof (rule wellFormedI)
  show "storeInvariant (appendRow row db)" by (rule inv')
next
  show "sorted_wrt (<) (map id' (rows (appendRow row db)))"
    using wellFormed_ids [OF wf] row(1)
    by (auto simp: sorted_wrt_append dest: id_less_nextId)
next
  show "sorted (map createdAt (rows (appendRow row db)))"
    using wellFormed_times [OF wf] row(2) clock
    by (auto simp: sorted_append)
next
  fix r l assume "r \<in> set (rows (appendRow row db))" "linkedId r = Some l"
  then show "l < id' r"
    using wellFormed_link [OF wf] link row(1) by auto
next
  fix r assume "r \<in> set (rows (appendRow row db))"
  then show "email r \<noteq> Some [] \<and> phoneNumber r \<noteq> Some [] \<and>
            (truthy (email r) \<or> truthy (phoneNumber r))"
    using wellFormed_values [OF wf] vals by auto
next
  fix P c assume P: "P \<in> set (rows (appendRow row db))" and c: "c \<in> set (rows (appendRow row db))"
    and prim: "linkPrecedence P = PRIMARY" and sh: "sharesValue c P"
  from P c consider "P \<in> set (rows db)" "c \<in> set (rows db)" | "P \<in> set (rows db)" "c = row"
    | "P = row" "c \<in> set (rows db)" | "P = row" "c = row" by auto
  then show "c = P \<or> linkedId c = Some (id' P)"
  proof cases
    case 1
    with wellFormed_shares [OF wf _ _ prim sh] show ?thesis by simp
  next
    case 2
    with share1 [OF _ prim] sh show ?thesis by simp
  next
    case 3
    with share2 prim sh show ?thesis by blast
  next
    case 4
    then show ?thesis by simp
  qed
qed

lemma payload_shares_matches:
  assumes "email row = (if truthy e then e else None)"
    and "phoneNumber row = (if truthy p then p else None)"
    and "sharesValue row P \<or> sharesValue P row" and "deletedAt P = None"
  shows "matches e p P"
  using assms by (auto simp: sharesValue_def matches_def split: if_splits)

lemma wellFormed_merged:
  assumes wf: "wellFormed db"
    and r0: "r0 \<in> set (rows db)" "linkPrecedence r0 = PRIMARY"
    and notin: "id' r0 \<notin> M"
    and above: "\<forall>m\<in>M. id' r0 < m"
    and prims: "\<forall>m\<in>M. \<exists>r\<in>set (rows db). id' r = m \<and> linkPrecedence r = PRIMARY"
    and rows1: "rows db1 = map (mergeRow (id' r0) now M) (rows db)"
  shows "wellFormed db1"
proof (rule wellFormedI)
  note inv = wellFormed_invariant [OF wf]
  show inv1: "storeInvariant db1"
    by (rule storeInvariant_merged [OF inv r0 notin rows1])
  show "sorted_wrt (<) (map id' (rows db1))"
    using wellFormed_ids [OF wf] by (simp add: rows1 comp_def)
  show "sorted (map createdAt (rows db1))"
    using wellFormed_times [OF wf] by (simp add: rows1 comp_def)
  have unchanged: "mergeRow (id' r0) now M r = r"
    if "r \<in> set (rows db)" "linkPrecedence r = PRIMARY" "id' r \<notin> M" for r
    using that inv by (auto simp: mergeRow_def storeInvariant_def)
  have secondary_notin: "id' c \<notin> M" if c: "c \<in> set (rows db)" "linkedId c = Some l" for c l
  proof
    assume "id' c \<in> M"
    with prims obtain r where r: "r \<in> set (rows db)" "id' r = id' c" "linkPrecedence r = PRIMARY"
      by blast
    from same_id_same_row [OF inv r(1) c(1) r(2)] r(3) have "linkPrecedence c = PRIMARY" by simp
    with inv c show False by (auto simp: storeInvariant_def)
  qed
  {
    fix r' l assume "r' \<in> set (rows db1)" and l: "linkedId r' = Some l"
    then obtain r where r: "r \<in> set (rows db)" "r' = mergeRow (id' r0) now M r"
      by (auto simp: rows1)
    consider (a) "id' r \<in> M" | (b) "id' r \<notin> M" "linkedId r \<in> Some ` M"
      | (c) "id' r \<notin> M" "linkedId r \<notin> Some ` M" by blast
    then show "l < id' r'"
    proof cases
      case a
      with r l above show ?thesis by (auto simp: mergeRow_def)
    next
      case b
      then obtain m where m: "m \<in> M" "linkedId r = Some m" by auto
      from wellFormed_link [OF wf r(1) m(2)] above m(1) have "id' r0 < id' r" by force
      with b r l show ?thesis by (auto simp: mergeRow_def)
    next
      case c
      with r l wellFormed_link [OF wf r(1)] show ?thesis by (auto simp: mergeRow_def)
    qed
  }
  {
    fix r' assume "r' \<in> set (rows db1)"
    then obtain r where r: "r \<in> set (rows db)" "r' = mergeRow (id' r0) now M r"
      by (auto simp: rows1)
    with wellFormed_values [OF wf r(1)]
    show "email r' \<noteq> Some [] \<and> phoneNumber r' \<noteq> Some [] \<and>
            (truthy (email r') \<or> truthy (phoneNumber r'))"
      by simp
  }
  {
    fix P' c' assume "P' \<in> set (rows db1)" "c' \<in> set (rows db1)"
      and prim: "linkPrecedence P' = PRIMARY" and sh: "sharesValue c' P'"
    then obtain P c where P: "P \<in> set (rows db)" "P' = mergeRow (id' r0) now M P"
      and c: "c \<in> set (rows db)" "c' = mergeRow (id' r0) now M c"
      by (auto simp: rows1)
    from prim P(2) have Pn: "id' P \<notin> M" "linkPrecedence P = PRIMARY"
      by (auto simp: mergeRow_def split: if_splits)
    with unchanged [OF P(1)] P(2) have PP: "P' = P" by simp
    from sh have "sharesValue c P" unfolding PP c(2) by (simp add: sharesValue_def)
    from wellFormed_shares [OF wf P(1) c(1) Pn(2) this]
    show "c' = P' \<or> linkedId c' = Some (id' P')"
    proof
      assume "c = P" with c(2) P(2) show ?thesis by simp
    next
      assume l: "linkedId c = Some (id' P)"
      from secondary_notin [OF c(1) l] Pn(1) l have "mergeRow (id' r0) now M c = c"
        by (auto simp: mergeRow_def)
      with l c(2) PP show ?thesis by simp
    qed
  }
qed

lemma payload_values:
  "(if truthy e then e else None) \<noteq> Some []"
  by (cases e) auto

lemma wellFormed_create:
  assumes wf: "wellFormed db" and clock: "\<forall>r\<in>set (rows db). createdAt r \<le> now"
    and none: "filter (matches e p) (rows db) = []" and t: "truthy e \<or> truthy p"
  shows "wellFormed (appendRow (primaryRow e p now db) db)"
proof (rule wellFormed_appendRow [OF wf clock])
  note inv = wellFormed_invariant [OF wf]
  show "storeInvariant (appendRow (primaryRow e p now db) db)"
    by (rule storeInvariant_appendRow_primary [OF inv])
  have nomatch: "\<not> matches e p P" if "P \<in> set (rows db)" for P
    using none that by (auto simp: filter_empty_conv)
  have live: "deletedAt P = None" if "P \<in> set (rows db)" for P
    using inv that by (auto simp: storeInvariant_def)
  show "linkedId (primaryRow e p now db) = Some (id' P)"
    if "P \<in> set (rows db)" "sharesValue (primaryRow e p now db) P" for P
    using payload_shares_matches [of "primaryRow e p now db" e p P] that nomatch live by simp
  show "\<not> sharesValue c (primaryRow e p now db)" if "c \<in> set (rows db)" for c
    using payload_shares_matches [of "primaryRow e p now db" e p c] that nomatch live by auto
qed (use t in \<open>auto simp: payload_values\<close>)

lemma wellFormed_attach:
  assumes wf: "wellFormed db" and clock: "\<forall>r\<in>set (rows db). createdAt r \<le> now"
    and one: "filter (\<lambda>c. linkPrecedence c = PRIMARY) (filter (matches e p) (rows db)) = [P0]"
    and t: "truthy e \<or> truthy p"
  shows "wellFormed (appendRow (secondaryRow e p (id' P0) now db) db)"
proof (rule wellFormed_appendRow [OF wf clock])
  note inv = wellFormed_invariant [OF wf]
  have "P0 \<in> set (filter (\<lambda>c. linkPrecedence c = PRIMARY) (filter (matches e p) (rows db)))"
    unfolding one by simp
  then have P0: "P0 \<in> set (rows db)" "linkPrecedence P0 = PRIMARY" by auto
  with inv have nz: "id' P0 \<noteq> 0" by (auto simp: storeInvariant_def)
  show "storeInvariant (appendRow (secondaryRow e p (id' P0) now db) db)"
    by (rule storeInvariant_appendRow_secondary [OF inv P0])
  show "l < nextId db" if "linkedId (secondaryRow e p (id' P0) now db) = Some l" for l
    using that nz id_less_nextId [OF P0(1)] by simp
  have live: "deletedAt P = None" if "P \<in> set (rows db)" for P
    using inv that by (auto simp: storeInvariant_def)
  show "linkedId (secondaryRow e p (id' P0) now db) = Some (id' P)"
    if P: "P \<in> set (rows db)" "linkPrecedence P = PRIMARY"
      and sh: "sharesValue (secondaryRow e p (id' P0) now db) P" for P
  proof -
    from payload_shares_matches [of "secondaryRow e p (id' P0) now db" e p P] sh live [OF P(1)]
    have "matches e p P" by simp
    with P have "P \<in> set (filter (\<lambda>c. linkPrecedence c = PRIMARY) (filter (matches e p) (rows db)))"
      by simp
    then have "P = P0" unfolding one by simp
    with nz show ?thesis by simp
  qed
qed (use t in \<open>auto simp: payload_values\<close>)

lemma wellFormed_merge:
  assumes wf: "wellFormed db" and clock: "\<forall>r\<in>set (rows db). createdAt r \<le> now"
    and t: "truthy e \<or> truthy p"
    and ps: "ps = filter (\<lambda>c. linkPrecedence c = PRIMARY) (filter (matches e p) (rows db))"
  shows "wellFormed (snd (mergePrimaryContacts ps e p now db))"
proof (cases ps)
  case Nil
  then show ?thesis using wf by (simp add: mergePrimaryContacts_Nil)
next
  case (Cons oldest others)
  note inv = wellFormed_invariant [OF wf]
  have sub: "set ps \<subseteq> set (rows db)" and allp: "\<forall>c\<in>set ps. linkPrecedence c = PRIMARY"
    and matched: "\<forall>c\<in>set ps. matches e p c"
    unfolding ps by auto
  have "sorted (map createdAt ps)"
    unfolding ps by (intro sorted_filter wellFormed_times [OF wf])
  then have sorted: "sort_key createdAt ps = oldest # others"
    unfolding Cons [symmetric] by (rule sort_key_id_if_sorted)
  have "sorted_wrt (\<lambda>a b. id' a < id' b) ps"
    unfolding ps using wellFormed_ids [OF wf]
    by (intro sorted_wrt_filter) (simp add: sorted_wrt_map)
  then have above: "\<forall>m\<in>id' ` set others. id' oldest < m"
    unfolding Cons by auto
  then have notin: "id' oldest \<notin> id' ` set others" by auto
  from sub allp Cons have r0: "oldest \<in> set (rows db)" "linkPrecedence oldest = PRIMARY" by auto
  have prims: "\<forall>m\<in>id' ` set others. \<exists>r\<in>set (rows db). id' r = m \<and> linkPrecedence r = PRIMARY"
    using sub allp Cons by auto
  define db1 where "db1 = fold (mergeInto (id' oldest) now) others db"
  have rows1: "rows db1 = map (mergeRow (id' oldest) now (id' ` set others)) (rows db)"
    by (simp add: db1_def fold_mergeInto_rows)
  have next1: "nextId db1 = nextId db" by (simp add: db1_def)
  have wf1: "wellFormed db1"
    by (rule wellFormed_merged [OF wf r0 notin above prims rows1])
  note inv1 = wellFormed_invariant [OF wf1]
  have clock1: "\<forall>r\<in>set (rows db1). createdAt r \<le> now"
    using clock by (auto simp: rows1)
  have keep: "mergeRow (id' oldest) now (id' ` set others) oldest = oldest"
    using inv r0 notin by (auto simp: mergeRow_def storeInvariant_def)
  then have in1: "oldest \<in> set (rows db1)" using r0(1) by (force simp: rows1)
  from inv r0 have nz: "id' oldest \<noteq> 0" by (auto simp: storeInvariant_def)
  let ?sec = "secondaryRow e p (id' oldest) now db1"
  have wf2: "wellFormed (appendRow ?sec db1)"
  proof (rule wellFormed_appendRow [OF wf1 clock1])
    show "storeInvariant (appendRow ?sec db1)"
      by (rule storeInvariant_appendRow_secondary [OF inv1 in1 r0(2)])
    show "l < nextId db1" if "linkedId ?sec = Some l" for l
      using that nz id_less_nextId [OF in1] by simp
    show "linkedId ?sec = Some (id' P')"
      if P': "P' \<in> set (rows db1)" "linkPrecedence P' = PRIMARY" and sh: "sharesValue ?sec P'" for P'
    proof -
      from P'(1) obtain P where P: "P \<in> set (rows db)"
        "P' = mergeRow (id' oldest) now (id' ` set others) P"
        by (auto simp: rows1)
      from P'(2) P(2) have Pn: "id' P \<notin> id' ` set others" "linkPrecedence P = PRIMARY"
        by (auto simp: mergeRow_def split: if_splits)
      with inv P(1) have "linkedId P = None" by (auto simp: storeInvariant_def)
      with Pn P(2) have PP: "P' = P" by (simp add: mergeRow_def)
      from inv P(1) have "deletedAt P = None" by (auto simp: storeInvariant_def)
      with payload_shares_matches [of ?sec e p P] sh PP have "matches e p P" by simp
      with P(1) Pn(2) have "P \<in> set ps" unfolding ps by simp
      with Cons Pn(1) have "P = oldest" by auto
      with PP nz show ?thesis by simp
    qed
  qed (use t in \<open>auto simp: payload_values\<close>)
  show ?thesis
    unfolding mergePrimaryContacts_Cons [OF sorted db1_def]
    using wf1 wf2 by simp
qed

lemma wellFormed_identify:
  assumes wf: "wellFormed db" and clock: "\<forall>r\<in>set (rows db). createdAt r \<le> now"
  shows "wellFormed (snd (identify request now db))"
proof (cases "findContactsByEmailOrPhone (r_email request) (r_phoneNumber request) db")
  case (Inl e)
  with wf show ?thesis by (simp add: identify_lookup_error)
next
  case (Inr cs)
  let ?e = "r_email request" and ?p = "r_phoneNumber request"
  note t = lookup_Inr_truthy [OF Inr]
  from Inr wellFormed_lookup [OF wf t] have cs: "cs = filter (matches ?e ?p) (rows db)" by simp
  note fp = wellFormed_findPrimaryContacts [OF wf t, folded cs]
  show ?thesis
  proof (cases "cs = []")
    case True
    with wellFormed_create [OF wf clock _ t] cs Inr show ?thesis
      by (simp add: identify_create createNewPrimaryContact_eq)
  next
    case False
    show ?thesis
    proof (cases "length (findPrimaryContacts cs) = 1")
      case True
      then obtain P0 where P0: "findPrimaryContacts cs = [P0]"
        by (cases "findPrimaryContacts cs") auto
      with fp cs have "filter (\<lambda>c. linkPrecedence c = PRIMARY) (filter (matches ?e ?p) (rows db)) = [P0]"
        by simp
      from wellFormed_attach [OF wf clock this t] wf show ?thesis
        by (simp add: identify_attach [OF Inr False P0])
    next
      case ne: False
      from wellFormed_merge [OF wf clock t, of "findPrimaryContacts cs"] fp cs show ?thesis
        by (simp add: identify_merge [OF Inr False ne])
    qed
  qed
qed

lemma wellFormed_empty: "wellFormed emptyDatabase"
  by (simp add: wellFormed_def storeInvariant_def emptyDatabase_def)

lemma reachable_wellFormed: "reachable db \<Longrightarrow> wellFormed db"
proof (induction rule: reachable.induct)
  case reachable_empty
  show ?case by (rule wellFormed_empty)
next
  case (reachable_identify db now request outcome db')
  from wellFormed_identify [OF reachable_identify.IH reachable_identify.hyps(2), of request]
    reachable_identify.hyps(3)
  show ?case by simp
qed

section \<open>The order of the lookup and of the table\<close>















section \<open>Requests without email and phone number\<close>

lemma whereConditions_Nil:
  "\<not> truthy e \<Longrightarrow> \<not> truthy p \<Longrightarrow> whereConditions e p = []"
  by (simp add: whereConditions_def)

text \<open>
  Claim C9. A request in which neither \<open>email\<close> nor \<open>phoneNumber\<close> is truthy (absent, or the
  empty string) is rejected by the lookup with a storage error, and the table is left as
  it was: nothing is created or changed.
\<close>

theorem identify_without_keys_fails:
  assumes "\<not> truthy (r_email request)" and "\<not> truthy (r_phoneNumber request)"
  shows "identify request now db = (Inl StorageError, db)"
  using assms
  by (simp add: identify_def findContactsByEmailOrPhone_def whereConditions_Nil)

theorem identify_without_keys_fails_witness:
  "\<not> truthy None \<and>
   identify \<lparr>r_email = None, r_phoneNumber = None\<rparr> 7
      \<lparr>rows = [\<lparr>id' = 1, phoneNumber = None, email = Some ''a@x.com'', linkedId = None,
                linkPrecedence = PRIMARY, createdAt = 3, updatedAt = 3, deletedAt = None\<rparr>],
       sqlite_sequence = 1\<rparr>
   = (Inl StorageError,
      \<lparr>rows = [\<lparr>id' = 1, phoneNumber = None, email = Some ''a@x.com'', linkedId = None,
                linkPrecedence = PRIMARY, createdAt = 3, updatedAt = 3, deletedAt = None\<rparr>],
       sqlite_sequence = 1\<rparr>)"
  using identify_without_keys_fails
          [of "\<lparr>r_email = None, r_phoneNumber = None\<rparr>" 7
              "\<lparr>rows = [\<lparr>id' = 1, phoneNumber = None, email = Some ''a@x.com'', linkedId = None,
                linkPrecedence = PRIMARY, createdAt = 3, updatedAt = 3, deletedAt = None\<rparr>],
                sqlite_sequence = 1\<rparr>"]
  by simp

section \<open>Creating a primary contact\<close>

text \<open>
  Claim C6. When the lookup returns no contact, \<open>identify\<close> appends exactly one row: a
  \<open>PRIMARY\<close> contact with the next id, the truthy fields of the request, no \<open>linkedId\<close>
  and both timestamps at the clock reading. The response is built from that id and the
  request alone (the cluster is not fetched): it lists the request's truthy values and no
  secondary. On the empty table the request \<open>{email: "a@x.com"}\<close> yields primary id 1,
  emails \<open>["a@x.com"]\<close>, no phone numbers and no secondary ids.
\<close>

theorem create_on_no_match:
  assumes "findContactsByEmailOrPhone (r_email request) (r_phoneNumber request) db = Inr []"
  shows "identify request now db =
           (Inr \<lparr>primaryContactId = nextId db,
                 emails = (if truthy (r_email request) then [the (r_email request)] else []),
                 phoneNumbers =
                   (if truthy (r_phoneNumber request) then [the (r_phoneNumber request)] else []),
                 secondaryContactIds = []\<rparr>,
            db\<lparr>rows := rows db @
                  [\<lparr>id' = nextId db,
                    phoneNumber =
                      (if truthy (r_phoneNumber request) then r_phoneNumber request else None),
                    email = (if truthy (r_email request) then r_email request else None),
                    linkedId = None,
                    linkPrecedence = PRIMARY,
                    createdAt = now, updatedAt = now, deletedAt = None\<rparr>],
                sqlite_sequence := nextId db\<rparr>)
         \<and> identify \<lparr>r_email = Some ''a@x.com'', r_phoneNumber = None\<rparr> now emptyDatabase =
           (Inr \<lparr>primaryContactId = 1, emails = [''a@x.com''], phoneNumbers = [],
                 secondaryContactIds = []\<rparr>,
            \<lparr>rows = [\<lparr>id' = 1, phoneNumber = None, email = Some ''a@x.com'', linkedId = None,
                      linkPrecedence = PRIMARY, createdAt = now, updatedAt = now,
                      deletedAt = None\<rparr>],
             sqlite_sequence = 1\<rparr>)"
proof
  show "identify request now db =
           (Inr \<lparr>primaryContactId = nextId db,
                 emails = (if truthy (r_email request) then [the (r_email request)] else []),
                 phoneNumbers =
                   (if truthy (r_phoneNumber request) then [the (r_phoneNumber request)] else []),
                 secondaryContactIds = []\<rparr>,
            db\<lparr>rows := rows db @
                  [\<lparr>id' = nextId db,
                    phoneNumber =
                      (if truthy (r_phoneNumber request) then r_phoneNumber request else None),
                    email = (if truthy (r_email request) then r_email request else None),
                    linkedId = None,
                    linkPrecedence = PRIMARY,
                    createdAt = now, updatedAt = now, deletedAt = None\<rparr>],
                sqlite_sequence := nextId db\<rparr>)"
    using assms lookup_Inr_truthy [OF assms]
    by (auto simp add: identify_def Let_def createNewPrimaryContact_def createContact_eq
          insertedRow_def)
next
  show "identify \<lparr>r_email = Some ''a@x.com'', r_phoneNumber = None\<rparr> now emptyDatabase =
           (Inr \<lparr>primaryContactId = 1, emails = [''a@x.com''], phoneNumbers = [],
                 secondaryContactIds = []\<rparr>,
            \<lparr>rows = [\<lparr>id' = 1, phoneNumber = None, email = Some ''a@x.com'', linkedId = None,
                      linkPrecedence = PRIMARY, createdAt = now, updatedAt = now,
                      deletedAt = None\<rparr>],
             sqlite_sequence = 1\<rparr>)"
    by (simp add: identify_def findContactsByEmailOrPhone_def whereConditions_def
          createNewPrimaryContact_def createContact_eq insertedRow_def nextId_def
          emptyDatabase_def)
qed

theorem create_on_no_match_witness:
  "findContactsByEmailOrPhone None (Some ''+2'')
      \<lparr>rows = [\<lparr>id' = 1, phoneNumber = Some ''+1'', email = Some ''a@x.com'', linkedId = None,
                linkPrecedence = PRIMARY, createdAt = 3, updatedAt = 3, deletedAt = None\<rparr>],
       sqlite_sequence = 1\<rparr> = Inr []
   \<and> identify \<lparr>r_email = None, r_phoneNumber = Some ''+2''\<rparr> 8
      \<lparr>rows = [\<lparr>id' = 1, phoneNumber = Some ''+1'', email = Some ''a@x.com'', linkedId = None,
                linkPrecedence = PRIMARY, createdAt = 3, updatedAt = 3, deletedAt = None\<rparr>],
       sqlite_sequence = 1\<rparr>
     = (Inr \<lparr>primaryContactId = 2, emails = [], phoneNumbers = [''+2''],
             secondaryContactIds = []\<rparr>,
        \<lparr>rows = [\<lparr>id' = 1, phoneNumber = Some ''+1'', email = Some ''a@x.com'', linkedId = None,
                linkPrecedence = PRIMARY, createdAt = 3, updatedAt = 3, deletedAt = None\<rparr>,
               \<lparr>id' = 2, phoneNumber = Some ''+2'', email = None, linkedId = None,
                linkPrecedence = PRIMARY, createdAt = 8, updatedAt = 8, deletedAt = None\<rparr>],
       sqlite_sequence = 2\<rparr>)"
proof -
  let ?db = "\<lparr>rows = [\<lparr>id' = 1, phoneNumber = Some ''+1'', email = Some ''a@x.com'', linkedId = None,
                linkPrecedence = PRIMARY, createdAt = 3, updatedAt = 3, deletedAt = None\<rparr>],
       sqlite_sequence = 1\<rparr>"
  have h: "findContactsByEmailOrPhone (r_email \<lparr>r_email = None, r_phoneNumber = Some ''+2''\<rparr>)
             (r_phoneNumber \<lparr>r_email = None, r_phoneNumber = Some ''+2''\<rparr>) ?db = Inr []"
    by (simp add: findContactsByEmailOrPhone_def whereConditions_def)
  from create_on_no_match [OF h, of 8] h show ?thesis
    by (simp add: nextId_def)
qed

section \<open>What a request leaves untouched\<close>

lemma kept_updateContactToSecondary:
  "map keptFields (rows (updateContactToSecondary a b now db)) = map keptFields (rows db)"
  by (simp add: updateContactToSecondary_def keptFields_def)

lemma kept_updateLinkedContactsPrimaryId:
  "map keptFields (rows (updateLinkedContactsPrimaryId a b now db)) = map keptFields (rows db)"
  by (simp add: updateLinkedContactsPrimaryId_def keptFields_def)

lemma kept_mergeInto:
  "map keptFields (rows (mergeInto oldest now c db)) = map keptFields (rows db)"
  by (simp add: mergeInto_def kept_updateLinkedContactsPrimaryId kept_updateContactToSecondary)

lemma kept_fold_mergeInto:
  "map keptFields (rows (fold (mergeInto oldest now) cs db)) = map keptFields (rows db)"
  by (induction cs arbitrary: db) (simp_all add: kept_mergeInto)

lemma kept_mergePrimaryContacts:
  "\<exists>new. map keptFields (rows (snd (mergePrimaryContacts ps e p now db)))
            = map keptFields (rows db) @ new \<and> length new \<le> 1"
proof (cases "sort_key createdAt ps")
  case Nil
  then show ?thesis by (simp add: mergePrimaryContacts_Nil)
next
  case (Cons oldest others)
  show ?thesis
    by (simp add: mergePrimaryContacts_Cons [OF Cons refl] kept_fold_mergeInto)
qed

lemma kept_identify:
  "\<exists>new. map keptFields (rows (snd (identify request now db)))
            = map keptFields (rows db) @ new \<and> length new \<le> 1"
proof (cases "findContactsByEmailOrPhone (r_email request) (r_phoneNumber request) db")
  case (Inl e)
  then show ?thesis by (simp add: identify_lookup_error)
next
  case (Inr cs)
  show ?thesis
  proof (cases "cs = []")
    case True
    with Inr show ?thesis
      by (simp add: identify_create createNewPrimaryContact_eq)
  next
    case False
    show ?thesis
    proof (cases "length (findPrimaryContacts cs) = 1")
      case True
      then obtain P where P: "findPrimaryContacts cs = [P]"
        by (cases "findPrimaryContacts cs") auto
      show ?thesis
        by (simp add: identify_attach [OF Inr False P])
    next
      case ne: False
      show ?thesis
        by (simp only: identify_merge [OF Inr False ne] kept_mergePrimaryContacts)
    qed
  qed
qed

text \<open>
  Claim C8, as amended. Whatever the request and the table, \<open>identify\<close> leaves every
  existing row in its place with the same \<open>id\<close>, \<open>email\<close>, \<open>phoneNumber\<close>, \<open>createdAt\<close> and
  \<open>deletedAt\<close>, and appends at most one row. The only fields of an existing contact that a
  request can rewrite are \<open>linkPrecedence\<close>, \<open>linkedId\<close> and \<open>updatedAt\<close>.
\<close>

theorem identify_keeps_contact_values:
  "length (rows db) \<le> length (rows (snd (identify request now db)))
   \<and> length (rows (snd (identify request now db))) \<le> Suc (length (rows db))
   \<and> map keptFields (take (length (rows db)) (rows (snd (identify request now db))))
       = map keptFields (rows db)"
proof -
  obtain new where n: "map keptFields (rows (snd (identify request now db)))
            = map keptFields (rows db) @ new" "length new \<le> 1"
    using kept_identify by blast
  from n have len: "length (rows (snd (identify request now db))) = length (rows db) + length new"
    by (metis length_append length_map)
  have "map keptFields (take (length (rows db)) (rows (snd (identify request now db))))
        = take (length (rows db)) (map keptFields (rows (snd (identify request now db))))"
    by (simp add: take_map)
  also have "\<dots> = map keptFields (rows db)" using n(1) by simp
  finally show ?thesis using len n(2) by simp
qed

text \<open>
  The claim as stated names \<open>linkPrecedence\<close> and \<open>linkedId\<close> as the only fields rewritten.
  Both \<open>UPDATE\<close> statements also set \<open>updatedAt\<close>: merging two primaries at clock reading 9
  moves the \<open>updatedAt\<close> of contact 2 from 2 to 9.
\<close>

theorem identify_rewrites_updatedAt_counterexample:
  "identify \<lparr>r_email = Some ''a@x.com'', r_phoneNumber = Some ''+2''\<rparr> 9
     \<lparr>rows = [\<lparr>id' = 1, phoneNumber = Some ''+1'', email = Some ''a@x.com'', linkedId = None,
               linkPrecedence = PRIMARY, createdAt = 1, updatedAt = 1, deletedAt = None\<rparr>,
              \<lparr>id' = 2, phoneNumber = Some ''+2'', email = Some ''b@x.com'', linkedId = None,
               linkPrecedence = PRIMARY, createdAt = 2, updatedAt = 2, deletedAt = None\<rparr>],
      sqlite_sequence = 2\<rparr>
   = (Inr \<lparr>primaryContactId = 1, emails = [''a@x.com'', ''b@x.com''],
           phoneNumbers = [''+1'', ''+2''], secondaryContactIds = [2]\<rparr>,
      \<lparr>rows = [\<lparr>id' = 1, phoneNumber = Some ''+1'', email = Some ''a@x.com'', linkedId = None,
               linkPrecedence = PRIMARY, createdAt = 1, updatedAt = 1, deletedAt = None\<rparr>,
              \<lparr>id' = 2, phoneNumber = Some ''+2'', email = Some ''b@x.com'', linkedId = Some 1,
               linkPrecedence = SECONDARY, createdAt = 2, updatedAt = 9, deletedAt = None\<rparr>],
      sqlite_sequence = 2\<rparr>)"
  by code_simp

section \<open>No orphan secondaries, no chains\<close>

text \<open>
  Claim C5. In every table that a sequence of successfully completed \<open>identify\<close> requests
  produces from the empty table (whatever the requests and the clock readings), the
  \<open>linkedId\<close> of each secondary is the id of a row that is primary and not soft-deleted, and
  no primary has a \<open>linkedId\<close>. Hence there is no orphan, no secondary linked to a
  secondary, and no cycle.
\<close>

theorem links_resolve_to_primaries:
  assumes "completed db"
  shows "\<forall>r\<in>set (rows db).
           (linkPrecedence r = SECONDARY \<longrightarrow>
              (\<exists>p\<in>set (rows db). linkedId r = Some (id' p) \<and> linkPrecedence p = PRIMARY
                                  \<and> deletedAt p = None)) \<and>
           (linkPrecedence r = PRIMARY \<longrightarrow> linkedId r = None)"
  using completed_invariant [OF assms] unfolding storeInvariant_def by blast

theorem links_resolve_to_primaries_witness:
  "completed sampleMerged \<and>
   (\<exists>r\<in>set (rows sampleMerged). linkPrecedence r = SECONDARY \<and>
      (\<exists>p\<in>set (rows sampleMerged). linkedId r = Some (id' p) \<and> linkPrecedence p = PRIMARY
                                  \<and> deletedAt p = None))"
proof -
  let ?r = "\<lparr>id' = 2, phoneNumber = Some ''+2'', email = Some ''b@x.com'', linkedId = Some 1,
            linkPrecedence = SECONDARY, createdAt = 2, updatedAt = 9, deletedAt = None\<rparr>"
  have r: "?r \<in> set (rows sampleMerged)"
    by (simp add: sampleMerged_def)
  from links_resolve_to_primaries [OF completed_sampleMerged] r
  have "linkPrecedence ?r = SECONDARY \<longrightarrow>
          (\<exists>p\<in>set (rows sampleMerged). linkedId ?r = Some (id' p) \<and> linkPrecedence p = PRIMARY
                                  \<and> deletedAt p = None)"
    by blast
  then have "linkPrecedence ?r = SECONDARY \<and>
          (\<exists>p\<in>set (rows sampleMerged). linkedId ?r = Some (id' p) \<and> linkPrecedence p = PRIMARY
                                  \<and> deletedAt p = None)"
    by simp
  with r completed_sampleMerged show ?thesis by blast
qed

section \<open>Ordering of the projection\<close>

text \<open>
  Claim C3. Take a table that satisfies the link invariant (every table produced by
  completed requests does) and a request that \<open>identify\<close> answers. In the table the request
  leaves, the cluster of the returned \<open>primaryContactId\<close> has a primary \<open>P\<close> with that id, and,
  with the non-primary contacts of the cluster taken in the order of the cluster query
  (ascending \<open>createdAt\<close>): \<open>emails\<close> starts with the email of \<open>P\<close> when that is non-empty and
  continues with values drawn from the secondaries in their order; likewise
  \<open>phoneNumbers\<close>; no value occurs twice in either list and every non-empty value of the
  cluster occurs; \<open>secondaryContactIds\<close> is the list of the ids of all non-primary contacts of
  the cluster, in ascending \<open>createdAt\<close>.
\<close>

theorem projection_ordering:
  assumes "storeInvariant db" and "identify request now db = (Inr resp, db')"
  shows "\<exists>P. find (\<lambda>c. linkPrecedence c = PRIMARY)
                (findAllLinkedContacts (primaryContactId resp) db') = Some P
           \<and> projectionOf resp P
                (filter (\<lambda>c. linkPrecedence c \<noteq> PRIMARY)
                   (findAllLinkedContacts (primaryContactId resp) db'))
           \<and> sorted (map createdAt
                (filter (\<lambda>c. linkPrecedence c \<noteq> PRIMARY)
                   (findAllLinkedContacts (primaryContactId resp) db')))"
proof -
  note inv' = identify_preserves_invariant [OF assms]
  have "\<exists>P. find (\<lambda>c. linkPrecedence c = PRIMARY)
                (findAllLinkedContacts (primaryContactId resp) db') = Some P
           \<and> projectionOf resp P
                (filter (\<lambda>c. linkPrecedence c \<noteq> PRIMARY)
                   (findAllLinkedContacts (primaryContactId resp) db'))"
  proof (cases "findContactsByEmailOrPhone (r_email request) (r_phoneNumber request) db")
    case (Inl e)
    with assms(2) show ?thesis by (simp add: identify_lookup_error)
  next
    case (Inr cs)
    show ?thesis
    proof (cases "cs = []")
      case True
      with Inr assms(2) have "createNewPrimaryContact (r_email request) (r_phoneNumber request) now db
                        = (Inr resp, db')"
        by (simp add: identify_create)
      from create_projection [OF assms(1) this] show ?thesis by simp
    next
      case False
      have "\<exists>pid. buildResponseForPrimary pid db' = Inr resp"
      proof (cases "length (findPrimaryContacts cs) = 1")
        case True
        then obtain P where P: "findPrimaryContacts cs = [P]"
          by (cases "findPrimaryContacts cs") auto
        from assms(2) show ?thesis
          by (auto simp: identify_attach [OF Inr False P] split: if_splits)
      next
        case ne: False
        from assms(2) have m: "mergePrimaryContacts (findPrimaryContacts cs) (r_email request)
                       (r_phoneNumber request) now db = (Inr resp, db')"
          by (simp only: identify_merge [OF Inr False ne])
        show ?thesis
        proof (cases "sort_key createdAt (findPrimaryContacts cs)")
          case Nil
          with m show ?thesis by (simp add: mergePrimaryContacts_Nil)
        next
          case (Cons oldest others)
          from m show ?thesis
            by (auto simp: mergePrimaryContacts_Cons [OF Cons refl] split: if_splits)
        qed
      qed
      then obtain pid where b: "buildResponseForPrimary pid db' = Inr resp" by blast
      from buildResponse_projection [OF inv' b] show ?thesis by auto
    qed
  qed
  with secondaries_sorted show ?thesis by blast
qed

theorem projection_ordering_witness:
  "storeInvariant sampleTwoPrimaries \<and>
   identify \<lparr>r_email = Some ''a@x.com'', r_phoneNumber = Some ''+2''\<rparr> 9 sampleTwoPrimaries =
     (Inr \<lparr>primaryContactId = 1, emails = [''a@x.com'', ''b@x.com''],
           phoneNumbers = [''+1'', ''+2''], secondaryContactIds = [2]\<rparr>, sampleMerged) \<and>
   (\<exists>P. find (\<lambda>c. linkPrecedence c = PRIMARY) (findAllLinkedContacts 1 sampleMerged) = Some P
      \<and> projectionOf
           \<lparr>primaryContactId = 1, emails = [''a@x.com'', ''b@x.com''],
            phoneNumbers = [''+1'', ''+2''], secondaryContactIds = [2]\<rparr> P
           (filter (\<lambda>c. linkPrecedence c \<noteq> PRIMARY) (findAllLinkedContacts 1 sampleMerged))
      \<and> sorted (map createdAt
           (filter (\<lambda>c. linkPrecedence c \<noteq> PRIMARY) (findAllLinkedContacts 1 sampleMerged))))"
  using projection_ordering [OF completed_invariant [OF completed_sampleTwoPrimaries] sample_merge]
    completed_invariant [OF completed_sampleTwoPrimaries] sample_merge
  by simp

section \<open>New information in the attach path and in the merge path\<close>

text \<open>
  Claim C7. When the matched contacts resolve to the single primary \<open>P\<close>, \<open>identify\<close> appends
  one secondary carrying the truthy fields of the request and linked to \<open>P\<close> exactly when
  the request's email or phone number is truthy and differs from the field of \<open>P\<close> itself,
  and writes nothing otherwise; the secondaries of \<open>P\<close> play no part. So for \<open>P\<close> with email
  \<open>a\<close> and phone \<open>p\<close>, a request with email \<open>a\<close> and a non-empty phone \<open>q \<noteq> p\<close> appends one
  secondary with email \<open>a\<close> and phone \<open>q\<close>, and a request with the values of \<open>P\<close> appends
  nothing. The merge path instead appends a secondary exactly when a truthy value of the
  request occurs nowhere in the cluster fetched after the merge. The witness is a request
  that repeats the data of an existing secondary and gets a duplicate of it.
\<close>

theorem new_information_in_attach_and_merge:
  assumes lookup: "findContactsByEmailOrPhone (r_email request) (r_phoneNumber request) db = Inr cs"
    and one: "findPrimaryContacts cs = [P]"
  shows "snd (identify request now db) =
           (if (truthy (r_email request) \<and> email P \<noteq> r_email request) \<or>
               (truthy (r_phoneNumber request) \<and> phoneNumber P \<noteq> r_phoneNumber request)
            then appendRow (secondaryRow (r_email request) (r_phoneNumber request) (id' P) now db) db
            else db)
       \<and> (\<forall>a p q. email P = Some a \<and> phoneNumber P = Some p \<and>
                 r_email request = Some a \<and> r_phoneNumber request = Some q \<and>
                 a \<noteq> [] \<and> q \<noteq> [] \<and> q \<noteq> p \<longrightarrow>
             rows (snd (identify request now db)) =
               rows db @ [\<lparr>id' = nextId db, phoneNumber = Some q, email = Some a,
                           linkedId = (if id' P \<noteq> 0 then Some (id' P) else None),
                           linkPrecedence = SECONDARY,
                           createdAt = now, updatedAt = now, deletedAt = None\<rparr>])
       \<and> (r_email request = email P \<and> r_phoneNumber request = phoneNumber P \<longrightarrow>
             snd (identify request now db) = db)
       \<and> (\<forall>ps oldest others db1.
             sort_key createdAt ps = oldest # others \<and>
             db1 = fold (mergeInto (id' oldest) now) others db \<longrightarrow>
             snd (mergePrimaryContacts ps (r_email request) (r_phoneNumber request) now db) =
               (if (truthy (r_email request) \<and>
                      r_email request \<notin> email ` set (findAllLinkedContacts (id' oldest) db1)) \<or>
                   (truthy (r_phoneNumber request) \<and>
                      r_phoneNumber request
                        \<notin> phoneNumber ` set (findAllLinkedContacts (id' oldest) db1))
                then appendRow
                       (secondaryRow (r_email request) (r_phoneNumber request) (id' oldest) now db1)
                       db1
                else db1))"
proof -
  from one have ne: "cs \<noteq> []" by auto
  note att = identify_attach [OF lookup ne one, of now]
  have 1: "snd (identify request now db) =
           (if (truthy (r_email request) \<and> email P \<noteq> r_email request) \<or>
               (truthy (r_phoneNumber request) \<and> phoneNumber P \<noteq> r_phoneNumber request)
            then appendRow (secondaryRow (r_email request) (r_phoneNumber request) (id' P) now db) db
            else db)"
    unfolding att by (simp add: needsSecondaryContact_iff)
  have 2: "rows (snd (identify request now db)) =
               rows db @ [\<lparr>id' = nextId db, phoneNumber = Some q, email = Some a,
                           linkedId = (if id' P \<noteq> 0 then Some (id' P) else None),
                           linkPrecedence = SECONDARY,
                           createdAt = now, updatedAt = now, deletedAt = None\<rparr>]"
    if "email P = Some a \<and> phoneNumber P = Some p \<and>
                 r_email request = Some a \<and> r_phoneNumber request = Some q \<and>
                 a \<noteq> [] \<and> q \<noteq> [] \<and> q \<noteq> p" for a p q
    unfolding 1 using that by (auto simp add: secondaryRow_def)
  have 3: "snd (identify request now db) = db"
    if "r_email request = email P \<and> r_phoneNumber request = phoneNumber P"
    unfolding 1 using that by simp
  have 4: "snd (mergePrimaryContacts ps (r_email request) (r_phoneNumber request) now db) =
               (if (truthy (r_email request) \<and>
                      r_email request \<notin> email ` set (findAllLinkedContacts (id' oldest) db1)) \<or>
                   (truthy (r_phoneNumber request) \<and>
                      r_phoneNumber request
                        \<notin> phoneNumber ` set (findAllLinkedContacts (id' oldest) db1))
                then appendRow
                       (secondaryRow (r_email request) (r_phoneNumber request) (id' oldest) now db1)
                       db1
                else db1)"
    if "sort_key createdAt ps = oldest # others \<and>
             db1 = fold (mergeInto (id' oldest) now) others db" for ps oldest others db1
  proof -
    from that have s: "sort_key createdAt ps = oldest # others"
      and d: "db1 = fold (mergeInto (id' oldest) now) others db" by auto
    show ?thesis
      unfolding mergePrimaryContacts_Cons [OF s d] by (simp add: hasNewInformation_iff)
  qed
  from 1 2 3 4 show ?thesis by blast
qed


theorem new_information_in_attach_and_merge_witness:
  "findContactsByEmailOrPhone (Some ''a@x.com'') (Some ''+2'') sampleAttached =
     Inr [\<lparr>id' = 1, phoneNumber = Some ''+1'', email = Some ''a@x.com'', linkedId = None,
           linkPrecedence = PRIMARY, createdAt = 1, updatedAt = 1, deletedAt = None\<rparr>,
          \<lparr>id' = 2, phoneNumber = Some ''+2'', email = Some ''a@x.com'', linkedId = Some 1,
           linkPrecedence = SECONDARY, createdAt = 2, updatedAt = 2, deletedAt = None\<rparr>]
   \<and> findPrimaryContacts
        [\<lparr>id' = 1, phoneNumber = Some ''+1'', email = Some ''a@x.com'', linkedId = None,
           linkPrecedence = PRIMARY, createdAt = 1, updatedAt = 1, deletedAt = None\<rparr>,
          \<lparr>id' = 2, phoneNumber = Some ''+2'', email = Some ''a@x.com'', linkedId = Some 1,
           linkPrecedence = SECONDARY, createdAt = 2, updatedAt = 2, deletedAt = None\<rparr>]
      = [\<lparr>id' = 1, phoneNumber = Some ''+1'', email = Some ''a@x.com'', linkedId = None,
           linkPrecedence = PRIMARY, createdAt = 1, updatedAt = 1, deletedAt = None\<rparr>]
   \<and> snd (identify \<lparr>r_email = Some ''a@x.com'', r_phoneNumber = Some ''+2''\<rparr> 7 sampleAttached)
      = \<lparr>rows = [\<lparr>id' = 1, phoneNumber = Some ''+1'', email = Some ''a@x.com'', linkedId = None,
                  linkPrecedence = PRIMARY, createdAt = 1, updatedAt = 1, deletedAt = None\<rparr>,
                 \<lparr>id' = 2, phoneNumber = Some ''+2'', email = Some ''a@x.com'', linkedId = Some 1,
                  linkPrecedence = SECONDARY, createdAt = 2, updatedAt = 2, deletedAt = None\<rparr>,
                 \<lparr>id' = 3, phoneNumber = Some ''+2'', email = Some ''a@x.com'', linkedId = Some 1,
                  linkPrecedence = SECONDARY, createdAt = 7, updatedAt = 7, deletedAt = None\<rparr>],
         sqlite_sequence = 3\<rparr>"
proof -
  let ?c1 = "\<lparr>id' = 1, phoneNumber = Some ''+1'', email = Some ''a@x.com'', linkedId = None,
           linkPrecedence = PRIMARY, createdAt = 1, updatedAt = 1, deletedAt = None\<rparr>"
  let ?c2 = "\<lparr>id' = 2, phoneNumber = Some ''+2'', email = Some ''a@x.com'', linkedId = Some 1,
           linkPrecedence = SECONDARY, createdAt = 2, updatedAt = 2, deletedAt = None\<rparr>"
  let ?rq = "\<lparr>r_email = Some ''a@x.com'', r_phoneNumber = Some ''+2''\<rparr>"
  have l: "findContactsByEmailOrPhone (Some ''a@x.com'') (Some ''+2'') sampleAttached
             = Inr [?c1, ?c2]"
    by code_simp
  have f: "findPrimaryContacts [?c1, ?c2] = [?c1]"
    by code_simp
  have l': "findContactsByEmailOrPhone (r_email ?rq) (r_phoneNumber ?rq) sampleAttached
             = Inr [?c1, ?c2]"
    using l by simp
  from new_information_in_attach_and_merge [OF l' f, of 7]
  have "snd (identify ?rq 7 sampleAttached) =
          appendRow (secondaryRow (Some ''a@x.com'') (Some ''+2'') 1 7 sampleAttached) sampleAttached"
    by simp
  also have "\<dots> = \<lparr>rows = [?c1, ?c2,
                 \<lparr>id' = 3, phoneNumber = Some ''+2'', email = Some ''a@x.com'', linkedId = Some 1,
                  linkPrecedence = SECONDARY, createdAt = 7, updatedAt = 7, deletedAt = None\<rparr>],
         sqlite_sequence = 3\<rparr>"
    by (simp add: appendRow_def secondaryRow_def sampleAttached_def nextId_def)
  finally show ?thesis using l f by simp
qed

section \<open>A matched secondary whose primary is not matched\<close>

text \<open>
  Claim C1 fails on the code. \<open>findPrimaryContacts\<close> looks for the primary of a matched
  secondary among the matched contacts only (\<open>contacts.find\<close>), never in the table. In the
  sample history, after contact 2 has become a secondary of contact 1, a request with a new
  email and the phone number of contact 2 matches contact 2 alone: no primary is found, the
  empty list falls into the merge branch, and the request ends in the error
  \<open>No primary contact found to merge\<close> with the table unchanged.
\<close>

theorem matched_secondary_alone_fails:
  "completed sampleMerged
   \<and> findContactsByEmailOrPhone (Some ''c@x.com'') (Some ''+2'') sampleMerged =
       Inr [\<lparr>id' = 2, phoneNumber = Some ''+2'', email = Some ''b@x.com'', linkedId = Some 1,
             linkPrecedence = SECONDARY, createdAt = 2, updatedAt = 9, deletedAt = None\<rparr>]
   \<and> findPrimaryContacts
         [\<lparr>id' = 2, phoneNumber = Some ''+2'', email = Some ''b@x.com'', linkedId = Some 1,
           linkPrecedence = SECONDARY, createdAt = 2, updatedAt = 9, deletedAt = None\<rparr>] = []
   \<and> identify \<lparr>r_email = Some ''c@x.com'', r_phoneNumber = Some ''+2''\<rparr> 10 sampleMerged =
       (Inl NoPrimaryContactToMerge, sampleMerged)"
proof -
  have "findContactsByEmailOrPhone (Some ''c@x.com'') (Some ''+2'') sampleMerged =
       Inr [\<lparr>id' = 2, phoneNumber = Some ''+2'', email = Some ''b@x.com'', linkedId = Some 1,
             linkPrecedence = SECONDARY, createdAt = 2, updatedAt = 9, deletedAt = None\<rparr>]"
    by code_simp
  moreover have "findPrimaryContacts
         [\<lparr>id' = 2, phoneNumber = Some ''+2'', email = Some ''b@x.com'', linkedId = Some 1,
           linkPrecedence = SECONDARY, createdAt = 2, updatedAt = 9, deletedAt = None\<rparr>] = []"
    by code_simp
  moreover have "identify \<lparr>r_email = Some ''c@x.com'', r_phoneNumber = Some ''+2''\<rparr> 10
        sampleMerged = (Inl NoPrimaryContactToMerge, sampleMerged)"
    by code_simp
  ultimately show ?thesis using completed_sampleMerged by simp
qed

section \<open>Merging two primaries\<close>

text \<open>
  What the merge does when both primaries are themselves among the matched contacts, in a
  table reachable under a clock that never runs backwards: the older one is returned and
  stays primary, the newer one becomes its secondary, and every contact that was linked to
  the newer one is linked to the older one.
\<close>

lemma two_in_order:
  fixes f :: "'a \<Rightarrow> nat"
  assumes "distinct ps" and "set ps = {A, B}" and "sorted (map f ps)" and "f A < f B"
  shows "ps = [A, B]"
proof -
  from assms(4) have ne: "A \<noteq> B" by auto
  with assms(1,2) have "length ps = 2"
    using distinct_card [of ps] by simp
  then obtain x y where ps: "ps = [x, y]"
    by (cases ps; cases "tl ps") auto
  with assms(2) have "{x, y} = {A, B}" by simp
  moreover from assms(3) ps have "f x \<le> f y" by simp
  ultimately have "x = A \<and> y = B" using assms(4) by (auto simp: doubleton_eq_iff)
  with ps show ?thesis by simp
qed

lemma merge_of_two_matched_primaries:
  assumes reach: "reachable db"
    and A: "A \<in> set (rows db)" "linkPrecedence A = PRIMARY"
    and B: "B \<in> set (rows db)" "linkPrecedence B = PRIMARY"
    and older: "createdAt A < createdAt B"
    and mA: "matches (r_email request) (r_phoneNumber request) A"
    and mB: "matches (r_email request) (r_phoneNumber request) B"
  shows "\<exists>resp db'. identify request now db = (Inr resp, db')
           \<and> primaryContactId resp = id' A
           \<and> (\<exists>a\<in>set (rows db'). id' a = id' A \<and> linkPrecedence a = PRIMARY)
           \<and> (\<exists>b\<in>set (rows db'). id' b = id' B \<and> linkPrecedence b = SECONDARY
                                  \<and> linkedId b = Some (id' A))
           \<and> (\<forall>c\<in>set (rows db). linkedId c = Some (id' B) \<longrightarrow>
                 (\<exists>c'\<in>set (rows db'). id' c' = id' c \<and> linkedId c' = Some (id' A)))"
proof -
  let ?e = "r_email request" and ?p = "r_phoneNumber request"
  let ?cs = "filter (matches ?e ?p) (rows db)"
  let ?ps = "filter (\<lambda>c. linkPrecedence c = PRIMARY) ?cs"
  note wf = reachable_wellFormed [OF reach]
  note inv = wellFormed_invariant [OF wf]
  from mA have t: "truthy ?e \<or> truthy ?p" by (auto simp: matches_def)
  note lookup = wellFormed_lookup [OF wf t]
  have same: "X = Y"
    if "X \<in> set (rows db)" "Y \<in> set (rows db)" "linkPrecedence X = PRIMARY"
      "linkPrecedence Y = PRIMARY" "sharesValue X Y" for X Y
    using wellFormed_shares [OF wf that(2,1,4,5)] inv that(1,3)
    by (auto simp: storeInvariant_def)
  from older have ne: "A \<noteq> B" by auto
  have elems: "Q = A \<or> Q = B"
    if Q: "Q \<in> set (rows db)" "linkPrecedence Q = PRIMARY" "matches ?e ?p Q" for Q
  proof -
    let ?byE = "\<lambda>X. truthy ?e \<and> email X = ?e" and ?byP = "\<lambda>X. truthy ?p \<and> phoneNumber X = ?p"
    have key: "?byE X \<or> ?byP X" if "matches ?e ?p X" for X
      using that by (auto simp: matches_def)
    have uE: "X = Y" if "X \<in> set (rows db)" "Y \<in> set (rows db)" "linkPrecedence X = PRIMARY"
      "linkPrecedence Y = PRIMARY" "?byE X" "?byE Y" for X Y
      using same [OF that(1-4)] that(5,6) by (auto simp: sharesValue_def)
    have uP: "X = Y" if "X \<in> set (rows db)" "Y \<in> set (rows db)" "linkPrecedence X = PRIMARY"
      "linkPrecedence Y = PRIMARY" "?byP X" "?byP Y" for X Y
      using same [OF that(1-4)] that(5,6) by (auto simp: sharesValue_def)
    from key [OF mA] key [OF mB] key [OF Q(3)]
      uE [OF A(1) B(1) A(2) B(2)] uP [OF A(1) B(1) A(2) B(2)]
      uE [OF Q(1) A(1) Q(2) A(2)] uE [OF Q(1) B(1) Q(2) B(2)]
      uP [OF Q(1) A(1) Q(2) A(2)] uP [OF Q(1) B(1) Q(2) B(2)] ne
    show ?thesis by blast
  qed
  have "distinct (rows db)"
    using inv by (auto simp: storeInvariant_def dest: distinct_map [THEN iffD1])
  then have d: "distinct ?ps" by simp
  have s: "set ?ps = {A, B}" using elems A B mA mB by auto
  have "sorted (map createdAt ?ps)"
    by (intro sorted_filter wellFormed_times [OF wf])
  from two_in_order [OF d s this older] have prim: "?ps = [] @ A # [B]" by simp
  have order: "sorted_wrt (\<lambda>a b. linkedId a \<noteq> Some (id' b)) ?cs"
    by (rule sorted_wrt_filter [OF wellFormed_no_forward_link [OF wf]])
  have two: "[] @ [B] \<noteq> []" by simp
  have younger: "\<forall>c\<in>set []. createdAt A < createdAt c" by simp
  have not_older: "\<forall>c\<in>set [B]. createdAt A \<le> createdAt c" using older by simp
  let ?M = "id' ` set ([] @ [B])"
  from identify_merge_result [OF inv lookup order prim two younger not_older, of now]
  obtain resp db' r0 where
    res: "identify request now db = (Inr resp, db')" "primaryContactId resp = id' A"
    and rows': "rows db' = map (mergeRow (id' A) now ?M) (rows db)
              \<or> rows db' = map (mergeRow (id' A) now ?M) (rows db)
                    @ [secondaryRow ?e ?p (id' A) now db]"
    and r0: "r0 \<in> set (rows db)" "id' r0 = id' A" "linkPrecedence r0 = PRIMARY"
      "mergeRow (id' A) now ?M r0 = r0"
    by blast
  from rows' have incl: "mergeRow (id' A) now ?M r \<in> set (rows db')"
    if "r \<in> set (rows db)" for r
    using that by auto
  from incl [OF r0(1)] r0 have keepA: "\<exists>a\<in>set (rows db'). id' a = id' A \<and> linkPrecedence a = PRIMARY"
    by auto
  from incl [OF B(1)] have demoted: "\<exists>b\<in>set (rows db'). id' b = id' B \<and> linkPrecedence b = SECONDARY
                                  \<and> linkedId b = Some (id' A)"
    by (intro bexI [of _ "mergeRow (id' A) now ?M B"]) (auto simp: mergeRow_def)
  have repointed: "\<exists>c'\<in>set (rows db'). id' c' = id' c \<and> linkedId c' = Some (id' A)"
    if c: "c \<in> set (rows db)" "linkedId c = Some (id' B)" for c
    using incl [OF c(1)] c(2)
    by (intro bexI [of _ "mergeRow (id' A) now ?M c"]) (auto simp: mergeRow_def)
  from res keepA demoted repointed show ?thesis by blast
qed

text \<open>
  Claim C2 fails on the code for the same reason as claim C1. In the second sample history
  contact 1 is the older primary, contact 2 its secondary and contact 3 a newer primary. A
  request with the email of contact 3 and the phone number of contact 2 matches both
  clusters, but contact 1 itself is not among the matched contacts, so contact 3 is taken
  for the only primary: the response names contact 3, contact 3 stays primary, and a new
  secondary of contact 3 is appended.
\<close>

theorem merge_missed_through_secondary:
  "completed sampleTwoClusters
   \<and> findContactsByEmailOrPhone (Some ''c@x.com'') (Some ''+2'') sampleTwoClusters =
       Inr [\<lparr>id' = 2, phoneNumber = Some ''+2'', email = Some ''a@x.com'', linkedId = Some 1,
             linkPrecedence = SECONDARY, createdAt = 2, updatedAt = 2, deletedAt = None\<rparr>,
            \<lparr>id' = 3, phoneNumber = Some ''+3'', email = Some ''c@x.com'', linkedId = None,
             linkPrecedence = PRIMARY, createdAt = 3, updatedAt = 3, deletedAt = None\<rparr>]
   \<and> identify \<lparr>r_email = Some ''c@x.com'', r_phoneNumber = Some ''+2''\<rparr> 4 sampleTwoClusters =
       (Inr \<lparr>primaryContactId = 3, emails = [''c@x.com''], phoneNumbers = [''+3'', ''+2''],
             secondaryContactIds = [4]\<rparr>,
        \<lparr>rows = [\<lparr>id' = 1, phoneNumber = Some ''+1'', email = Some ''a@x.com'', linkedId = None,
                  linkPrecedence = PRIMARY, createdAt = 1, updatedAt = 1, deletedAt = None\<rparr>,
                 \<lparr>id' = 2, phoneNumber = Some ''+2'', email = Some ''a@x.com'', linkedId = Some 1,
                  linkPrecedence = SECONDARY, createdAt = 2, updatedAt = 2, deletedAt = None\<rparr>,
                 \<lparr>id' = 3, phoneNumber = Some ''+3'', email = Some ''c@x.com'', linkedId = None,
                  linkPrecedence = PRIMARY, createdAt = 3, updatedAt = 3, deletedAt = None\<rparr>,
                 \<lparr>id' = 4, phoneNumber = Some ''+2'', email = Some ''c@x.com'', linkedId = Some 3,
                  linkPrecedence = SECONDARY, createdAt = 4, updatedAt = 4, deletedAt = None\<rparr>],
          sqlite_sequence = 4\<rparr>)"
proof -
  have "findContactsByEmailOrPhone (Some ''c@x.com'') (Some ''+2'') sampleTwoClusters =
       Inr [\<lparr>id' = 2, phoneNumber = Some ''+2'', email = Some ''a@x.com'', linkedId = Some 1,
             linkPrecedence = SECONDARY, createdAt = 2, updatedAt = 2, deletedAt = None\<rparr>,
            \<lparr>id' = 3, phoneNumber = Some ''+3'', email = Some ''c@x.com'', linkedId = None,
             linkPrecedence = PRIMARY, createdAt = 3, updatedAt = 3, deletedAt = None\<rparr>]"
    by code_simp
  moreover have "identify \<lparr>r_email = Some ''c@x.com'', r_phoneNumber = Some ''+2''\<rparr> 4
      sampleTwoClusters =
       (Inr \<lparr>primaryContactId = 3, emails = [''c@x.com''], phoneNumbers = [''+3'', ''+2''],
             secondaryContactIds = [4]\<rparr>,
        \<lparr>rows = [\<lparr>id' = 1, phoneNumber = Some ''+1'', email = Some ''a@x.com'', linkedId = None,
                  linkPrecedence = PRIMARY, createdAt = 1, updatedAt = 1, deletedAt = None\<rparr>,
                 \<lparr>id' = 2, phoneNumber = Some ''+2'', email = Some ''a@x.com'', linkedId = Some 1,
                  linkPrecedence = SECONDARY, createdAt = 2, updatedAt = 2, deletedAt = None\<rparr>,
                 \<lparr>id' = 3, phoneNumber = Some ''+3'', email = Some ''c@x.com'', linkedId = None,
                  linkPrecedence = PRIMARY, createdAt = 3, updatedAt = 3, deletedAt = None\<rparr>,
                 \<lparr>id' = 4, phoneNumber = Some ''+2'', email = Some ''c@x.com'', linkedId = Some 3,
                  linkPrecedence = SECONDARY, createdAt = 4, updatedAt = 4, deletedAt = None\<rparr>],
          sqlite_sequence = 4\<rparr>)"
    by code_simp
  ultimately show ?thesis using completed_sampleTwoClusters by simp
qed

section \<open>Which primary a merge promotes\<close>




section \<open>Repeating the values of a primary\<close>

lemma distinct_singleton:
  assumes "distinct xs" and "set xs = {a}"
  shows "xs = [a]"
proof -
  from assms have "length xs = 1" by (metis distinct_card card.empty card_insert_disjoint
        empty_iff finite.emptyI One_nat_def)
  then obtain b where "xs = [b]" by (cases xs) auto
  with assms(2) show ?thesis by simp
qed

text \<open>
  Claim C4. Take a table produced from the empty table by any sequence of requests under a
  clock that never runs backwards, and a primary \<open>P\<close> in it. A request with exactly the
  email and phone number of \<open>P\<close> (a field that \<open>P\<close> lacks is absent from the request) is
  answered with \<open>primaryContactId\<close> the id of \<open>P\<close> and leaves the table exactly as it was: no
  contact is created and none is changed.
\<close>

theorem duplicate_of_primary_is_idempotent:
  assumes "reachable db" and "P \<in> set (rows db)" and "linkPrecedence P = PRIMARY"
  shows "\<exists>resp. identify \<lparr>r_email = email P, r_phoneNumber = phoneNumber P\<rparr> now db = (Inr resp, db)
           \<and> primaryContactId resp = id' P"
proof -
  let ?e = "email P" and ?p = "phoneNumber P"
  let ?rq = "\<lparr>r_email = email P, r_phoneNumber = phoneNumber P\<rparr>"
  let ?cs = "filter (matches ?e ?p) (rows db)"
  note wf = reachable_wellFormed [OF assms(1)]
  note inv = wellFormed_invariant [OF wf]
  from wellFormed_values [OF wf assms(2)] have t: "truthy ?e \<or> truthy ?p" by simp
  from inv assms(2) have live: "deletedAt P = None" by (auto simp: storeInvariant_def)
  with t have mP: "matches ?e ?p P" by (auto simp: matches_def)
  have lookup: "findContactsByEmailOrPhone (r_email ?rq) (r_phoneNumber ?rq) db = Inr ?cs"
    using wellFormed_lookup [OF wf t] by simp
  have only: "Q = P" if Q: "Q \<in> set (rows db)" "linkPrecedence Q = PRIMARY" "matches ?e ?p Q" for Q
  proof -
    from Q(3) have "sharesValue Q P" by (auto simp: matches_def sharesValue_def)
    from wellFormed_shares [OF wf assms(2) Q(1) assms(3) this] inv Q(1,2) show ?thesis
      by (auto simp: storeInvariant_def)
  qed
  have "distinct (rows db)" using inv by (auto simp: storeInvariant_def dest: distinct_map [THEN iffD1])
  then have d: "distinct (filter (\<lambda>c. linkPrecedence c = PRIMARY) ?cs)" by simp
  have "set (filter (\<lambda>c. linkPrecedence c = PRIMARY) ?cs) = {P}"
    using only mP assms(2,3) by auto
  from distinct_singleton [OF d this] have one: "findPrimaryContacts ?cs = [P]"
    by (simp add: wellFormed_findPrimaryContacts [OF wf t])
  from mP assms(2) have ne: "?cs \<noteq> []" by (auto simp: filter_empty_conv)
  have "\<not> needsSecondaryContact P (r_email ?rq) (r_phoneNumber ?rq)"
    by (simp add: needsSecondaryContact_iff)
  with identify_attach [OF lookup ne one, of now]
  have id: "identify ?rq now db = (buildResponseForPrimary (id' P) db, db)" by simp
  from buildResponse_ok [OF inv assms(2) refl assms(3)] id show ?thesis by auto
qed

lemma reachable_sampleAttached: "reachable sampleAttached"
proof -
  have "reachable sampleOnePrimary"
    by (rule reachable_identify [OF reachable_empty _ sample_create_first])
       (simp add: emptyDatabase_def)
  then show ?thesis
    by (rule reachable_identify [OF _ _ sample_attach]) (simp add: sampleOnePrimary_def)
qed

theorem duplicate_of_primary_is_idempotent_witness:
  "reachable sampleAttached
   \<and> \<lparr>id' = 1, phoneNumber = Some ''+1'', email = Some ''a@x.com'', linkedId = None,
       linkPrecedence = PRIMARY, createdAt = 1, updatedAt = 1, deletedAt = None\<rparr>
       \<in> set (rows sampleAttached)
   \<and> (\<exists>resp. identify \<lparr>r_email = Some ''a@x.com'', r_phoneNumber = Some ''+1''\<rparr> 7 sampleAttached
                 = (Inr resp, sampleAttached)
         \<and> primaryContactId resp = 1)"
proof -
  let ?P = "\<lparr>id' = 1, phoneNumber = Some ''+1'', email = Some ''a@x.com'', linkedId = None,
       linkPrecedence = PRIMARY, createdAt = 1, updatedAt = 1, deletedAt = None\<rparr>"
  have P: "?P \<in> set (rows sampleAttached)" by (simp add: sampleAttached_def)
  have prim: "linkPrecedence ?P = PRIMARY" by simp
  from duplicate_of_primary_is_idempotent [OF reachable_sampleAttached P prim, of 7]
  have "\<exists>resp. identify \<lparr>r_email = Some ''a@x.com'', r_phoneNumber = Some ''+1''\<rparr> 7 sampleAttached
                 = (Inr resp, sampleAttached)
         \<and> primaryContactId resp = 1"
    by simp
  with reachable_sampleAttached P show ?thesis by blast
qed

end
